theory Spec2Isabelle
  imports Main "HOL-Library.Word" "HOL-Library.Monad_Syntax" "HOL-Library.List_Lexorder"
    "HOL-Library.Char_ord"
begin

section \<open>The generic store (internal/store/store.go)\<close>

text \<open>
  \<^verbatim>\<open>Store[T]\<close> holds two tables: \<^verbatim>\<open>store\<close>, from key strings to values of type
  \<^verbatim>\<open>T\<close>, and \<^verbatim>\<open>expires\<close>, from \<^emph>\<open>pointers to variables of type T\<close> (\<^verbatim>\<open>*T\<close>) to
  unsigned 64-bit numbers. The key of \<^verbatim>\<open>expires\<close> is always the address of a
  parameter or local variable of the calling method (\<^verbatim>\<open>&Value\<close> in \<^verbatim>\<open>Put\<close>,
  \<^verbatim>\<open>&val\<close> in \<^verbatim>\<open>GetExpiry\<close>, \<^verbatim>\<open>&obj\<close> in \<^verbatim>\<open>SetExpiry\<close>). In Go every call creates
  that variable anew, and a variable whose address is kept in the table stays
  allocated, so the address of a new variable differs from every key of the table.
  The model makes this explicit: addresses are natural numbers, \<open>allocated\<close> counts
  the variables created so far, and the variable of the current call lives at address
  \<open>allocated s\<close>.

  A value of type \<^verbatim>\<open>T\<close> is a handle of a collection (every implementation of
  \<^verbatim>\<open>DSInterface\<close> in the repository is a pointer to a struct); the zero value of
  \<^verbatim>\<open>T\<close>, returned by a failed lookup, is \<open>None\<close>. Times and durations are the
  64-bit integers of the source; \<open>now\<close> stands for \<^verbatim>\<open>time.Now().UnixMilli()\<close>.
\<close>

type_synonym addr = nat

record 'v Store =
  store :: "string \<rightharpoonup> 'v"
  expires :: "addr \<rightharpoonup> 64 word"
  lastAccessedAt :: "'v \<Rightarrow> 64 word"
  allocated :: nat

definition NewStore :: "'v Store" where
  "NewStore = \<lparr>store = Map.empty, expires = Map.empty,
               lastAccessedAt = (\<lambda>_. 0), allocated = 0\<rparr>"

text \<open>
  Modelled from the spec: \<^verbatim>\<open>UpdateLastAccessedAt\<close> belongs to
  \<^verbatim>\<open>ds.BaseDataStructure\<close>, which is not among the source files. The spec says that
  each handle carries its own last-accessed timestamp and that \<^verbatim>\<open>Put\<close> and \<^verbatim>\<open>Get\<close>
  stamp it to now.
\<close>

definition UpdateLastAccessedAt :: "'v \<Rightarrow> 64 word \<Rightarrow> 'v Store \<Rightarrow> 'v Store" where
  "UpdateLastAccessedAt v now s = s\<lparr>lastAccessedAt := (lastAccessedAt s)(v := now)\<rparr>"

text \<open>
  \<^verbatim>\<open>Put\<close>: the parameter \<^verbatim>\<open>Value\<close> is the variable at address \<open>allocated s\<close>; for a
  positive duration the table \<^verbatim>\<open>expires\<close> gets \<^verbatim>\<open>uint64(expDurationMs)\<close> under that
  address. The comparison \<^verbatim>\<open>expDurationMs > 0\<close> is signed.
\<close>

definition Put :: "'v Store \<Rightarrow> string \<Rightarrow> 'v \<Rightarrow> 64 word \<Rightarrow> 64 word \<Rightarrow> 'v Store" where
  "Put s key Value expDurationMs now =
     (let a = allocated s;
          s1 = UpdateLastAccessedAt Value now s;
          s2 = s1\<lparr>store := (store s1)(key \<mapsto> Value), allocated := Suc a\<rparr>
      in if 0 < sint expDurationMs
         then s2\<lparr>expires := (expires s2)(a \<mapsto> expDurationMs)\<rparr>
         else s2)"

definition Get :: "'v Store \<Rightarrow> string \<Rightarrow> 64 word \<Rightarrow> ('v option \<times> bool) \<times> 'v Store" where
  "Get s key now =
     (case store s key of
        Some v \<Rightarrow> ((Some v, True), UpdateLastAccessedAt v now s)
      | None \<Rightarrow> ((None, False), s))"

definition Delete :: "'v Store \<Rightarrow> string \<Rightarrow> bool \<times> 'v Store" where
  "Delete s key =
     (case store s key of
        Some _ \<Rightarrow> (True, s\<lparr>store := (store s)(key := None)\<rparr>)
      | None \<Rightarrow> (False, s))"

text \<open>
  \<^verbatim>\<open>GetExpiry\<close> looks the table up under \<^verbatim>\<open>&val\<close>, the address of its own local
  variable. The variable is dead when the method returns, so the counter stays.
  A miss of the swiss map yields the zero value and \<^verbatim>\<open>false\<close>.
\<close>

definition GetExpiry :: "'v Store \<Rightarrow> string \<Rightarrow> 64 word \<times> bool" where
  "GetExpiry s key =
     (case store s key of
        Some val \<Rightarrow> (case expires s (allocated s) of
                       Some deadline \<Rightarrow> (deadline, True)
                     | None \<Rightarrow> (0, False))
      | None \<Rightarrow> (0, False))"

definition SetExpiry :: "'v Store \<Rightarrow> string \<Rightarrow> 64 word \<Rightarrow> 64 word \<Rightarrow> 'v Store" where
  "SetExpiry s key expDurationMs now =
     (case store s key of
        Some obj \<Rightarrow> s\<lparr>expires := (expires s)(allocated s \<mapsto> now + expDurationMs),
                      allocated := Suc (allocated s)\<rparr>
      | None \<Rightarrow> s)"

text \<open>
  The addresses in the table are addresses of variables that exist: this holds for the
  new store and is kept by every operation.
\<close>

definition store_wf :: "'v Store \<Rightarrow> bool" where
  "store_wf s \<longleftrightarrow> (\<forall>a. a \<in> dom (expires s) \<longrightarrow> a < allocated s)"

datatype 'v store_op =
    OpPut string 'v "64 word" "64 word"
  | OpGet string "64 word"
  | OpDelete string
  | OpSetExpiry string "64 word" "64 word"

fun apply_store_op :: "'v Store \<Rightarrow> 'v store_op \<Rightarrow> 'v Store" where
  "apply_store_op s (OpPut k v d now) = Put s k v d now"
| "apply_store_op s (OpGet k now) = snd (Get s k now)"
| "apply_store_op s (OpDelete k) = snd (Delete s k)"
| "apply_store_op s (OpSetExpiry k d now) = SetExpiry s k d now"

definition run_store :: "'v store_op list \<Rightarrow> 'v Store" where
  "run_store ops = foldl apply_store_op NewStore ops"

section \<open>The sorted set (internal/datastructures/sortedsets/sortedset.go)\<close>

subsection \<open>Scores, nodes and the heap\<close>

text \<open>
  The sorted set compares scores, which are \<^verbatim>\<open>float64\<close>, and members, which are of a
  type \<^verbatim>\<open>T\<close> of \<^verbatim>\<open>constraints.Ordered\<close> (an integer type, a float type or a string
  type), with Go's \<^verbatim>\<open><\<close>, \<^verbatim>\<open>==\<close> and \<^verbatim>\<open>!=\<close>. A value of such a type is modelled as
  either \<open>NaN\<close>, which the float types have, or \<open>Num x\<close>, where \<open>x\<close> ranges over a linear
  order that stands for the values that are not NaN in their order (the two zeros of a
  float type compare equal in Go and are one \<open>x\<close>; strings are compared bytewise, which
  is the lexicographic order of character lists). Every comparison with NaN is false in
  Go, also \<^verbatim>\<open>NaN == NaN\<close>; \<^verbatim>\<open>a != b\<close> is the negation of \<^verbatim>\<open>a == b\<close>.
  \<^verbatim>\<open>strconv.ParseFloat\<close>, which the commands use to read scores and the members of a
  float type, accepts the text \<^verbatim>\<open>NaN\<close>.
\<close>

datatype 'a ordered = NaN | Num 'a

type_synonym 's float64 = "'s ordered"

fun flt :: "'a::linorder ordered \<Rightarrow> 'a ordered \<Rightarrow> bool" where
  "flt (Num a) (Num b) = (a < b)"
| "flt _ _ = False"

fun feq :: "'a ordered \<Rightarrow> 'a ordered \<Rightarrow> bool" where
  "feq (Num a) (Num b) = (a = b)"
| "feq _ _ = False"

text \<open>
  A Go map whose keys are of such a type: the entries, in no particular order. Lookup,
  assignment and \<^verbatim>\<open>delete\<close> find an entry by \<^verbatim>\<open>==\<close> on the keys, so an entry under the
  key NaN is never found: an assignment under NaN always adds an entry and \<^verbatim>\<open>delete\<close>
  of NaN removes none.
\<close>

definition dict_get :: "('k ordered \<times> 'v) list \<Rightarrow> 'k ordered \<Rightarrow> 'v option" where
  "dict_get d k = map_option snd (find (\<lambda>e. feq (fst e) k) d)"

definition dict_put :: "('k ordered \<times> 'v) list \<Rightarrow> 'k ordered \<Rightarrow> 'v \<Rightarrow> ('k ordered \<times> 'v) list" where
  "dict_put d k v =
     (if list_ex (\<lambda>e. feq (fst e) k) d
      then map (\<lambda>e. if feq (fst e) k then (fst e, v) else e) d
      else d @ [(k, v)])"

definition dict_delete :: "('k ordered \<times> 'v) list \<Rightarrow> 'k ordered \<Rightarrow> ('k ordered \<times> 'v) list" where
  "dict_delete d k = filter (\<lambda>e. \<not> feq (fst e) k) d"

text \<open>
  Nodes live in a heap, a partial map from references to nodes; a pointer is a
  \<open>ref option\<close> with \<open>None\<close> for \<^verbatim>\<open>nil\<close>. \<open>nextNode\<close> is the reference that the next
  allocation returns. The result of an operation is an \<open>option\<close>: \<open>None\<close> stands for
  a run that does not return normally (a nil dereference, an index out of range, or a
  search loop that never ends).
\<close>

type_synonym ref = nat

definition maxLevel :: nat where
  "maxLevel = 32"

record ('m, 's) skipListNode =
  member :: "'m ordered"
  score :: "'s float64"
  forward :: "ref option list"

record ('m, 's) SortedSet =
  nodes :: "ref \<rightharpoonup> ('m, 's) skipListNode"
  nextNode :: ref
  dict :: "('m ordered \<times> ref) list"
  header :: ref
  level :: nat
  length_ss :: int
  rnd :: "nat \<Rightarrow> bool"

text \<open>Reading a slice at an index: out of range is a panic.\<close>

definition nth_opt :: "'a list \<Rightarrow> nat \<Rightarrow> 'a option" where
  "nth_opt xs i = (if i < length xs then Some (xs ! i) else None)"

text \<open>\<^verbatim>\<open>x.forward[i]\<close> and \<^verbatim>\<open>x.forward[i] = p\<close> for a pointer \<open>x\<close> that is not nil.\<close>

definition get_forward ::
  "(ref \<rightharpoonup> ('m, 's) skipListNode) \<Rightarrow> ref \<Rightarrow> nat \<Rightarrow> ref option option" where
  "get_forward h x i = (case h x of None \<Rightarrow> None | Some n \<Rightarrow> nth_opt (forward n) i)"

definition set_forward ::
  "(ref \<rightharpoonup> ('m, 's) skipListNode) \<Rightarrow> ref \<Rightarrow> nat \<Rightarrow> ref option
     \<Rightarrow> (ref \<rightharpoonup> ('m, 's) skipListNode) option" where
  "set_forward h x i p =
     (case h x of
        None \<Rightarrow> None
      | Some n \<Rightarrow> if i < length (forward n)
                  then Some (h(x \<mapsto> n\<lparr>forward := (forward n)[i := p]\<rparr>))
                  else None)"

definition newSkipListNode :: "nat \<Rightarrow> 's float64 \<Rightarrow> 'm ordered \<Rightarrow> ('m, 's) skipListNode" where
  "newSkipListNode lvl sc mem = \<lparr>member = mem, score = sc, forward = replicate lvl None\<rparr>"

text \<open>
  \<^verbatim>\<open>NewSortedSet\<close>: the header's member is the zero value of \<^verbatim>\<open>T\<close> and its score is
  minus infinity; both are values of the modelled types and are passed in. \<open>r\<close> is the
  random source: \<open>r n\<close> tells whether the \<open>n\<close>-th coming draw \<^verbatim>\<open>ss.rnd.Float64()\<close> is
  below \<^verbatim>\<open>probability\<close>.
\<close>

definition NewSortedSet :: "'m ordered \<Rightarrow> 's float64 \<Rightarrow> (nat \<Rightarrow> bool) \<Rightarrow> ('m, 's) SortedSet" where
  "NewSortedSet zero neg_inf r =
     \<lparr>nodes = [0 \<mapsto> newSkipListNode maxLevel neg_inf zero], nextNode = 1,
      dict = [], header = 0, level = 1, length_ss = 0, rnd = r\<rparr>"

text \<open>
  \<^verbatim>\<open>randomLevel\<close>: the draw is evaluated before \<^verbatim>\<open>level < maxLevel\<close>, so every test of
  the loop condition consumes one draw.
\<close>

function randomLevel_loop :: "(nat \<Rightarrow> bool) \<Rightarrow> nat \<Rightarrow> nat \<times> (nat \<Rightarrow> bool)" where
  "randomLevel_loop r lvl =
     (if r 0 \<and> lvl < maxLevel then randomLevel_loop (\<lambda>n. r (Suc n)) (Suc lvl)
      else (lvl, \<lambda>n. r (Suc n)))"
  by pat_completeness auto
termination
  by (relation "measure (\<lambda>(r, lvl). maxLevel - lvl)") auto

declare randomLevel_loop.simps [simp del]

definition randomLevel :: "(nat \<Rightarrow> bool) \<Rightarrow> nat \<times> (nat \<Rightarrow> bool)" where
  "randomLevel r = randomLevel_loop r 1"

subsection \<open>Searching\<close>

text \<open>
  The condition of the inner search loop, written three times in the source
  (\<^verbatim>\<open>insertNode\<close>, \<^verbatim>\<open>deleteNode\<close>, \<^verbatim>\<open>findNodeIndex\<close>): the node \<open>n\<close> comes before the
  key \<open>(sc, mem)\<close>.
\<close>

definition precedes ::
  "('m::linorder, 's::linorder) skipListNode \<Rightarrow> 's float64 \<Rightarrow> 'm ordered \<Rightarrow> bool" where
  "precedes n sc mem \<longleftrightarrow> flt (score n) sc \<or> (feq (score n) sc \<and> flt (member n) mem)"

text \<open>
  The inner loop \<^verbatim>\<open>for x.forward[i] != nil && (...) { x = x.forward[i] }\<close>. On a heap
  with a cycle it need not end, hence a partial function.
\<close>

partial_function (option) seek ::
  "(ref \<rightharpoonup> ('m::linorder, 's::linorder) skipListNode) \<Rightarrow> nat \<Rightarrow> 's float64 \<Rightarrow> 'm ordered \<Rightarrow> ref
     \<Rightarrow> ref option" where
  "seek h i sc mem x =
     (case get_forward h x i of
        None \<Rightarrow> None
      | Some None \<Rightarrow> Some x
      | Some (Some y) \<Rightarrow>
          (case h y of
             None \<Rightarrow> None
           | Some n \<Rightarrow> if precedes n sc mem then seek h i sc mem y else Some x))"

declare seek.simps [code]

text \<open>A counted loop over the indices \<open>is\<close>, in their order, that stops at a panic.\<close>

fun for_loop :: "('a \<Rightarrow> 'b \<Rightarrow> 'b option) \<Rightarrow> 'a list \<Rightarrow> 'b \<Rightarrow> 'b option" where
  "for_loop body [] s = Some s"
| "for_loop body (i # is) s =
     (case body i s of None \<Rightarrow> None | Some s' \<Rightarrow> for_loop body is s')"

text \<open>
  The outer loop \<^verbatim>\<open>for i := ss.level - 1; i >= 0; i--\<close> of \<^verbatim>\<open>insertNode\<close> and
  \<^verbatim>\<open>deleteNode\<close>: one step runs the inner loop at level \<open>i\<close> from the current \<open>x\<close> and
  stores the node reached in \<^verbatim>\<open>update[i]\<close>.
\<close>

definition search_step ::
  "(ref \<rightharpoonup> ('m::linorder, 's::linorder) skipListNode) \<Rightarrow> 's float64 \<Rightarrow> 'm ordered \<Rightarrow> nat
     \<Rightarrow> ref \<times> ref option list \<Rightarrow> (ref \<times> ref option list) option" where
  "search_step h sc mem i = (\<lambda>(x, update).
     case seek h i sc mem x of
       None \<Rightarrow> None
     | Some x' \<Rightarrow> if i < length update then Some (x', update[i := Some x']) else None)"

definition find_update ::
  "('m::linorder, 's::linorder) SortedSet \<Rightarrow> 's float64 \<Rightarrow> 'm ordered \<Rightarrow> ref option list option" where
  "find_update ss sc mem =
     map_option snd
       (for_loop (search_step (nodes ss) sc mem) (rev [0..<level ss])
          (header ss, replicate maxLevel None))"

subsection \<open>insertNode and deleteNode\<close>

text \<open>\<^verbatim>\<open>update[i] = ss.header\<close> for the levels above the current one.\<close>

definition raise_step :: "ref \<Rightarrow> nat \<Rightarrow> ref option list \<Rightarrow> ref option list option" where
  "raise_step hdr i update = (if i < length update then Some (update[i := Some hdr]) else None)"

text \<open>
  \<^verbatim>\<open>newNode.forward[i] = update[i].forward[i]; update[i].forward[i] = newNode\<close>.
\<close>

definition link_step ::
  "ref option list \<Rightarrow> ref \<Rightarrow> nat \<Rightarrow> (ref \<rightharpoonup> ('m, 's) skipListNode)
     \<Rightarrow> (ref \<rightharpoonup> ('m, 's) skipListNode) option" where
  "link_step update newNode i h =
     do {
       uo \<leftarrow> nth_opt update i;
       u \<leftarrow> uo;
       p \<leftarrow> get_forward h u i;
       h1 \<leftarrow> set_forward h newNode i p;
       set_forward h1 u i (Some newNode)
     }"

definition insertNode ::
  "('m::linorder, 's::linorder) SortedSet \<Rightarrow> 's float64 \<Rightarrow> 'm ordered \<Rightarrow> ('m, 's) SortedSet option" where
  "insertNode ss sc mem =
     do {
       update0 \<leftarrow> find_update ss sc mem;
       let (lvl, r') = randomLevel (rnd ss);
       update \<leftarrow> (if lvl > level ss
                  then for_loop (raise_step (header ss)) [level ss..<lvl] update0
                  else Some update0);
       let newNode = nextNode ss;
       let h0 = (nodes ss)(newNode \<mapsto> newSkipListNode lvl sc mem);
       h \<leftarrow> for_loop (link_step update newNode) [0..<lvl] h0;
       Some (ss\<lparr>nodes := h, nextNode := Suc newNode, dict := dict_put (dict ss) mem newNode,
                level := (if lvl > level ss then lvl else level ss),
                length_ss := length_ss ss + 1, rnd := r'\<rparr>)
     }"

text \<open>
  \<^verbatim>\<open>if update[i].forward[i] == node { update[i].forward[i] = node.forward[i] }\<close>: a
  comparison of pointers.
\<close>

definition unlink_step ::
  "ref option list \<Rightarrow> ref \<Rightarrow> nat \<Rightarrow> (ref \<rightharpoonup> ('m, 's) skipListNode)
     \<Rightarrow> (ref \<rightharpoonup> ('m, 's) skipListNode) option" where
  "unlink_step update node i h =
     do {
       uo \<leftarrow> nth_opt update i;
       u \<leftarrow> uo;
       p \<leftarrow> get_forward h u i;
       if p = Some node
       then do { q \<leftarrow> get_forward h node i; set_forward h u i q }
       else Some h
     }"

text \<open>
  \<^verbatim>\<open>for ss.level > 1 && ss.header.forward[ss.level-1] == nil { ss.level-- }\<close>.
\<close>

fun shrink_level :: "(ref \<rightharpoonup> ('m, 's) skipListNode) \<Rightarrow> ref \<Rightarrow> nat \<Rightarrow> nat option" where
  "shrink_level h hdr 0 = Some 0"
| "shrink_level h hdr (Suc l) =
     (if Suc l > 1
      then (case get_forward h hdr l of
              None \<Rightarrow> None
            | Some None \<Rightarrow> shrink_level h hdr l
            | Some (Some _) \<Rightarrow> Some (Suc l))
      else Some (Suc l))"

definition deleteNode ::
  "('m::linorder, 's::linorder) SortedSet \<Rightarrow> ref \<Rightarrow> ('m, 's) SortedSet option" where
  "deleteNode ss node =
     do {
       n \<leftarrow> nodes ss node;
       update \<leftarrow> find_update ss (score n) (member n);
       h \<leftarrow> for_loop (unlink_step update node) [0..<level ss] (nodes ss);
       l \<leftarrow> shrink_level h (header ss) (level ss);
       Some (ss\<lparr>nodes := h, level := l, dict := dict_delete (dict ss) (member n),
                length_ss := length_ss ss - 1\<rparr>)
     }"

subsection \<open>The public operations\<close>

text \<open>
  \<^verbatim>\<open>ZAdd\<close> ranges over a Go map, in an order that Go leaves open: the argument is the
  list of the map's pairs in the order of the iteration (a map has each key once).
  The result is the count and the new state.
\<close>

fun ZAdd_loop ::
  "('m ordered \<times> 's float64) list \<Rightarrow> int \<times> ('m::linorder, 's::linorder) SortedSet
     \<Rightarrow> (int \<times> ('m, 's) SortedSet) option" where
  "ZAdd_loop [] (added, ss) = Some (added, ss)"
| "ZAdd_loop ((mem, sc) # rest) (added, ss) =
     (case dict_get (dict ss) mem of
        Some node \<Rightarrow>
          do {
            n \<leftarrow> nodes ss node;
            if \<not> feq (score n) sc
            then do {
              ss1 \<leftarrow> deleteNode ss node;
              ss2 \<leftarrow> insertNode ss1 sc mem;
              ZAdd_loop rest (added, ss2)
            }
            else ZAdd_loop rest (added, ss)
          }
      | None \<Rightarrow>
          do {
            ss1 \<leftarrow> insertNode ss sc mem;
            ZAdd_loop rest (added + 1, ss1)
          })"

definition ZAdd ::
  "('m::linorder, 's::linorder) SortedSet \<Rightarrow> ('m ordered \<times> 's float64) list
     \<Rightarrow> (int \<times> ('m, 's) SortedSet) option" where
  "ZAdd ss memberScores = ZAdd_loop memberScores (0, ss)"

fun ZRem_loop ::
  "'m ordered list \<Rightarrow> int \<times> ('m::linorder, 's::linorder) SortedSet
     \<Rightarrow> (int \<times> ('m, 's) SortedSet) option" where
  "ZRem_loop [] (removed, ss) = Some (removed, ss)"
| "ZRem_loop (mem # rest) (removed, ss) =
     (case dict_get (dict ss) mem of
        Some node \<Rightarrow> do { ss1 \<leftarrow> deleteNode ss node; ZRem_loop rest (removed + 1, ss1) }
      | None \<Rightarrow> ZRem_loop rest (removed, ss))"

definition ZRem ::
  "('m::linorder, 's::linorder) SortedSet \<Rightarrow> 'm ordered list \<Rightarrow> (int \<times> ('m, 's) SortedSet) option" where
  "ZRem ss members = ZRem_loop members (0, ss)"

text \<open>
  \<^verbatim>\<open>findNodeIndex\<close>: the same descent, with a counter that is incremented only for the
  steps taken at level 0.
\<close>

partial_function (option) rank_seek ::
  "(ref \<rightharpoonup> ('m::linorder, 's::linorder) skipListNode) \<Rightarrow> nat \<Rightarrow> 's float64 \<Rightarrow> 'm ordered
     \<Rightarrow> ref \<times> int \<Rightarrow> (ref \<times> int) option" where
  "rank_seek h i sc mem xr =
     (case get_forward h (fst xr) i of
        None \<Rightarrow> None
      | Some None \<Rightarrow> Some xr
      | Some (Some y) \<Rightarrow>
          (case h y of
             None \<Rightarrow> None
           | Some n \<Rightarrow>
               if precedes n sc mem
               then rank_seek h i sc mem (y, if i = 0 then snd xr + 1 else snd xr)
               else Some xr))"

declare rank_seek.simps [code]

definition findNodeIndex :: "('m::linorder, 's::linorder) SortedSet \<Rightarrow> ref \<Rightarrow> int option" where
  "findNodeIndex ss node =
     do {
       n \<leftarrow> nodes ss node;
       (x, rank) \<leftarrow> for_loop (\<lambda>i. rank_seek (nodes ss) i (score n) (member n))
                       (rev [0..<level ss]) (header ss, 0);
       p \<leftarrow> get_forward (nodes ss) x 0;
       Some (if p = Some node then rank else - 1)
     }"

definition ZRank :: "('m::linorder, 's::linorder) SortedSet \<Rightarrow> 'm ordered \<Rightarrow> (int \<times> bool) option" where
  "ZRank ss mem =
     (case dict_get (dict ss) mem of
        None \<Rightarrow> Some (0, False)
      | Some node \<Rightarrow>
          do {
            index \<leftarrow> findNodeIndex ss node;
            Some (if index = - 1 then (0, False) else (index, True))
          })"

definition ZRevRank :: "('m::linorder, 's::linorder) SortedSet \<Rightarrow> 'm ordered \<Rightarrow> (int \<times> bool) option" where
  "ZRevRank ss mem =
     (case dict_get (dict ss) mem of
        None \<Rightarrow> Some (0, False)
      | Some node \<Rightarrow>
          do {
            index \<leftarrow> findNodeIndex ss node;
            Some (if index = - 1 then (0, False) else (length_ss ss - index - 1, True))
          })"

text \<open>
  \<^verbatim>\<open>adjustRangeIndices\<close> on Go's \<^verbatim>\<open>int\<close>. The only sums are \<^verbatim>\<open>length + start\<close> and
  \<^verbatim>\<open>length + stop\<close> with a negative second summand and a length that is not negative,
  which cannot overflow; the integers are unbounded here.
\<close>

definition adjustRangeIndices :: "int \<Rightarrow> int \<Rightarrow> int \<Rightarrow> int \<times> int" where
  "adjustRangeIndices start stop len =
     (let start1 = (if start < 0 then len + start else start);
          stop1 = (if stop < 0 then len + stop else stop);
          start2 = (if start1 < 0 then 0 else start1);
          stop2 = (if stop1 \<ge> len then len - 1 else stop1)
      in (start2, stop2))"

text \<open>The elements of the \<^verbatim>\<open>[]interface{}\<close> that \<^verbatim>\<open>ZRange\<close> returns.\<close>

datatype ('m, 's) item = Member "'m ordered" | Score "'s float64"

function ZRange_loop ::
  "(ref \<rightharpoonup> ('m, 's) skipListNode) \<Rightarrow> int \<Rightarrow> int \<Rightarrow> bool \<Rightarrow> ref option \<Rightarrow> int
     \<Rightarrow> ('m, 's) item list \<Rightarrow> ('m, 's) item list option" where
  "ZRange_loop h start stop withScores x i result =
     (case x of
        None \<Rightarrow> Some result
      | Some r \<Rightarrow>
          if i \<le> stop
          then (case h r of
                  None \<Rightarrow> None
                | Some n \<Rightarrow>
                    (case nth_opt (forward n) 0 of
                       None \<Rightarrow> None
                     | Some nx \<Rightarrow>
                         ZRange_loop h start stop withScores nx (i + 1)
                           (if i \<ge> start
                            then result @ [Member (member n)]
                                   @ (if withScores then [Score (score n)] else [])
                            else result)))
          else Some result)"
  by pat_completeness auto
termination
  by (relation "measure (\<lambda>(h, start, stop, withScores, x, i, result). nat (stop + 1 - i))") auto

declare ZRange_loop.simps [simp del]

definition ZRange ::
  "('m, 's) SortedSet \<Rightarrow> int \<Rightarrow> int \<Rightarrow> bool \<Rightarrow> ('m, 's) item list option" where
  "ZRange ss start0 stop0 withScores =
     (let len = length_ss ss;
          (start, stop) = adjustRangeIndices start0 stop0 len
      in if start > stop \<or> start \<ge> len then Some []
         else do {
           x \<leftarrow> get_forward (nodes ss) (header ss) 0;
           ZRange_loop (nodes ss) start stop withScores x 0 []
         })"

subsection \<open>Observing a sorted set\<close>

text \<open>
  The in-order traversal of level 0 from the header, as \<^verbatim>\<open>ZRange\<close> walks it, without a
  bound: the nodes met, each with its member and score, in the order of the walk.
\<close>

partial_function (option) traverse ::
  "(ref \<rightharpoonup> ('m, 's) skipListNode) \<Rightarrow> ref option \<Rightarrow> (ref \<times> 'm ordered \<times> 's float64) list
     \<Rightarrow> (ref \<times> 'm ordered \<times> 's float64) list option" where
  "traverse h x acc =
     (case x of
        None \<Rightarrow> Some acc
      | Some r \<Rightarrow>
          (case h r of
             None \<Rightarrow> None
           | Some n \<Rightarrow>
               (case nth_opt (forward n) 0 of
                  None \<Rightarrow> None
                | Some nx \<Rightarrow> traverse h nx (acc @ [(r, member n, score n)]))))"

declare traverse.simps [code]

definition level0_walk :: "('m, 's) SortedSet \<Rightarrow> (ref \<times> 'm ordered \<times> 's float64) list option" where
  "level0_walk ss =
     do {
       x \<leftarrow> get_forward (nodes ss) (header ss) 0;
       traverse (nodes ss) x []
     }"

definition level0_nodes :: "('m, 's) SortedSet \<Rightarrow> ref list option" where
  "level0_nodes ss = map_option (map fst) (level0_walk ss)"

definition level0 :: "('m, 's) SortedSet \<Rightarrow> ('m ordered \<times> 's float64) list option" where
  "level0 ss = map_option (map snd) (level0_walk ss)"

text \<open>
  The order of the skip list on pairs of a member and its score, with the comparisons of
  the source, and what strictly ascending means for a traversal.
\<close>

definition entry_less ::
  "('m::linorder) ordered \<times> ('s::linorder) float64 \<Rightarrow> 'm ordered \<times> 's float64 \<Rightarrow> bool" where
  "entry_less a b \<longleftrightarrow> flt (snd a) (snd b) \<or> (feq (snd a) (snd b) \<and> flt (fst a) (fst b))"

definition ascending :: "(('m::linorder) ordered \<times> ('s::linorder) float64) list \<Rightarrow> bool" where
  "ascending es = sorted_wrt entry_less es"

text \<open>
  Sequences of the two mutating operations, run from a given state; the counts are
  dropped.
\<close>

datatype ('m, 's) zop = OpZAdd "('m ordered \<times> 's float64) list" | OpZRem "'m ordered list"

fun apply_zop ::
  "('m, 's) zop \<Rightarrow> ('m::linorder, 's::linorder) SortedSet \<Rightarrow> ('m, 's) SortedSet option" where
  "apply_zop (OpZAdd memberScores) ss = map_option snd (ZAdd ss memberScores)"
| "apply_zop (OpZRem members) ss = map_option snd (ZRem ss members)"

definition run_zops ::
  "('m, 's) zop list \<Rightarrow> ('m::linorder, 's::linorder) SortedSet \<Rightarrow> ('m, 's) SortedSet option" where
  "run_zops ops ss = for_loop apply_zop ops ss"

subsection \<open>The shape of a skip list\<close>

text \<open>
  What the proofs say about a heap. The \<open>shape\<close> of a node is what the operations never
  change once the node is made: its member, its score and the number of its levels.
  A \<open>cell\<close> names a node of the list together with its entry and its height; \<open>chain\<close>
  follows the pointers of one level from a pointer \<open>p\<close> through the nodes \<open>rs\<close> to the
  pointer \<open>q\<close>, and \<open>lane i\<close> selects the cells that take part in level \<open>i\<close>.
\<close>

definition shape ::
  "(ref \<rightharpoonup> ('m, 's) skipListNode) \<Rightarrow> ref \<Rightarrow> (('m ordered \<times> 's float64) \<times> nat) option" where
  "shape h r = map_option (\<lambda>n. ((member n, score n), length (forward n))) (h r)"

definition height :: "(ref \<rightharpoonup> ('m, 's) skipListNode) \<Rightarrow> ref \<Rightarrow> nat" where
  "height h r = (case shape h r of None \<Rightarrow> 0 | Some (e, l) \<Rightarrow> l)"

type_synonym ('m, 's) cell = "ref \<times> ('m ordered \<times> 's float64) \<times> nat"

abbreviation cref :: "('m, 's) cell \<Rightarrow> ref" where
  "cref c \<equiv> fst c"

abbreviation centry :: "('m, 's) cell \<Rightarrow> 'm ordered \<times> 's float64" where
  "centry c \<equiv> fst (snd c)"

abbreviation cheight :: "('m, 's) cell \<Rightarrow> nat" where
  "cheight c \<equiv> snd (snd c)"

primrec chain ::
  "(ref \<rightharpoonup> ('m, 's) skipListNode) \<Rightarrow> nat \<Rightarrow> ref option \<Rightarrow> ref list \<Rightarrow> ref option \<Rightarrow> bool" where
  "chain h i p [] q \<longleftrightarrow> p = q"
| "chain h i p (r # rs) q \<longleftrightarrow>
     p = Some r \<and> (case get_forward h r i of None \<Rightarrow> False | Some p' \<Rightarrow> chain h i p' rs q)"

definition lane :: "nat \<Rightarrow> ('m, 's) cell list \<Rightarrow> ('m, 's) cell list" where
  "lane i cs = filter (\<lambda>c. i < cheight c) cs"

text \<open>
  The node after which the search for a key stops at level \<open>i\<close>, when \<open>A\<close> are the cells
  before the key: the last cell of \<open>A\<close> on that lane, or the header.
\<close>

definition pred_at :: "ref \<Rightarrow> ('m, 's) cell list \<Rightarrow> nat \<Rightarrow> ref" where
  "pred_at hdr A i = last (hdr # map cref (lane i A))"

text \<open>An entry without NaN: neither its member nor its score is NaN.\<close>

definition entry_num :: "'m ordered \<times> 's float64 \<Rightarrow> bool" where
  "entry_num e \<longleftrightarrow> fst e \<noteq> NaN \<and> snd e \<noteq> NaN"

text \<open>
  \<open>skiplist ss cs\<close>: the sorted set \<open>ss\<close> is a well-formed skip list whose nodes, in the
  order of level 0, are the cells \<open>cs\<close>. The header has all \<open>maxLevel\<close> levels and is not
  a cell; the cells are distinct nodes of the heap with the recorded entry and height,
  between 1 and the current level, and no score is NaN; at every level the pointers
  lead from the header through exactly the cells of that lane to nil; the entries are
  strictly ascending and the members distinct; \<^verbatim>\<open>dict\<close> maps exactly the members to
  their nodes; \<^verbatim>\<open>length\<close> counts the cells; all references are allocated; no member
  is NaN, and the keys of \<^verbatim>\<open>dict\<close> are the members, each once.
\<close>

definition skiplist :: "('m::linorder, 's::linorder) SortedSet \<Rightarrow> ('m, 's) cell list \<Rightarrow> bool" where
  "skiplist ss cs \<longleftrightarrow>
     height (nodes ss) (header ss) = maxLevel
     \<and> header ss \<notin> set (map cref cs)
     \<and> distinct (map cref cs)
     \<and> 1 \<le> level ss \<and> level ss \<le> maxLevel
     \<and> (\<forall>c \<in> set cs. shape (nodes ss) (cref c) = Some (centry c, cheight c)
            \<and> 1 \<le> cheight c \<and> cheight c \<le> level ss \<and> snd (centry c) \<noteq> NaN)
     \<and> (\<forall>i < maxLevel.
            chain (nodes ss) i (Some (header ss)) (header ss # map cref (lane i cs)) None)
     \<and> sorted_wrt entry_less (map centry cs)
     \<and> distinct (map (fst \<circ> centry) cs)
     \<and> (\<forall>m r. dict_get (dict ss) m = Some r
            \<longleftrightarrow> (\<exists>c \<in> set cs. cref c = r \<and> fst (centry c) = m))
     \<and> length_ss ss = int (length cs)
     \<and> header ss < nextNode ss
     \<and> (\<forall>c \<in> set cs. cref c < nextNode ss)
     \<and> (\<forall>c \<in> set cs. fst (centry c) \<noteq> NaN)
     \<and> distinct (map fst (dict ss))
     \<and> set (map fst (dict ss)) = set (map (fst \<circ> centry) cs)"

text \<open>
  The entry held by the node at a reference, and what \<^verbatim>\<open>ZAdd\<close> has done for one pair
  \<open>p\<close> of its argument when it leads from \<open>ss\<close> to \<open>ss'\<close>: the member is mapped to a node
  that holds the pair; this is the node of before when the member existed and its score
  compared equal to the new one, and otherwise a node that did not exist before.
\<close>

definition entry_at ::
  "(ref \<rightharpoonup> ('m, 's) skipListNode) \<Rightarrow> ref \<Rightarrow> ('m ordered \<times> 's float64) option" where
  "entry_at h r = map_option (\<lambda>n. (member n, score n)) (h r)"

definition zadd_result ::
  "('m, 's) SortedSet \<Rightarrow> ('m, 's) SortedSet \<Rightarrow> 'm ordered \<times> 's float64 \<Rightarrow> bool" where
  "zadd_result ss ss' p \<longleftrightarrow>
     (case dict_get (dict ss') (fst p) of
        None \<Rightarrow> False
      | Some node' \<Rightarrow>
          entry_at (nodes ss') node' = Some p
          \<and> (case dict_get (dict ss) (fst p) of
               None \<Rightarrow> nextNode ss \<le> node'
             | Some node \<Rightarrow>
                 (case entry_at (nodes ss) node of
                    None \<Rightarrow> True
                  | Some e \<Rightarrow> if feq (snd e) (snd p) then node' = node else nextNode ss \<le> node')))"

text \<open>
  The arguments that the theorems range over. The pairs of a \<^verbatim>\<open>ZAdd\<close> come from a Go
  map, in which every member that is not NaN occurs once; \<open>nan_free_map\<close> says so and
  that no member and no score is NaN. A sequence of operations is valid when every
  \<^verbatim>\<open>ZAdd\<close> in it has such an argument; \<^verbatim>\<open>ZRem\<close> takes any list of members.
\<close>

definition nan_free_map :: "('m ordered \<times> 's float64) list \<Rightarrow> bool" where
  "nan_free_map ms \<longleftrightarrow>
     distinct (map fst ms) \<and> list_all (\<lambda>p. fst p \<noteq> NaN \<and> snd p \<noteq> NaN) ms"

fun valid_zop :: "('m, 's) zop \<Rightarrow> bool" where
  "valid_zop (OpZAdd memberScores) = nan_free_map memberScores"
| "valid_zop (OpZRem members) = True"

text \<open>
  What \<^verbatim>\<open>ZRange\<close> should return, stated from the words of the specification, for a set
  whose entries in ascending order are \<open>es\<close>: a negative index counts from the end, the
  stop index is clamped to the last position, the result is empty when the start index
  lies behind the stop index or behind the last position, and otherwise it holds the
  members at the positions from start to stop, each followed by its score when scores
  are asked for.
\<close>

definition render :: "bool \<Rightarrow> 'm ordered \<times> 's float64 \<Rightarrow> ('m, 's) item list" where
  "render withScores e = Member (fst e) # (if withScores then [Score (snd e)] else [])"

definition spec_ZRange ::
  "('m ordered \<times> 's float64) list \<Rightarrow> int \<Rightarrow> int \<Rightarrow> bool \<Rightarrow> ('m, 's) item list" where
  "spec_ZRange es start stop withScores =
     (let n = int (length es);
          a = (if start < 0 then n + start else start);
          b = min (if stop < 0 then n + stop else stop) (n - 1)
      in if a > b \<or> a \<ge> n then []
         else concat (map (\<lambda>j. render withScores (es ! j))
                (filter (\<lambda>j. a \<le> int j \<and> int j \<le> b) [0..<length es])))"

section \<open>The list (internal/datastructures/list/list.go)\<close>

text \<open>
  A doubly linked list of cells in a heap of its own. A run-time panic (the dereference
  of a nil pointer) is a value. \<^verbatim>\<open>size\<close> is an \<^verbatim>\<open>int64\<close> that counts the cells; it is
  modelled without a bound, which a list that fits in memory never reaches. The
  \<^verbatim>\<open>error\<close> that \<^verbatim>\<open>LPop\<close> and \<^verbatim>\<open>RPop\<close> return is a \<open>string option\<close>, with \<open>None\<close> for
  \<^verbatim>\<open>nil\<close>.
\<close>

datatype panic = NilDereference

record 'a ListNode =
  element :: 'a
  "next" :: "ref option"
  prev :: "ref option"

record 'a List =
  cells :: "ref \<rightharpoonup> 'a ListNode"
  nextCell :: ref
  size_l :: int
  head :: "ref option"
  tail :: "ref option"

definition NewLists :: "'a List" where
  "NewLists = \<lparr>cells = Map.empty, nextCell = 0, size_l = 0, head = None, tail = None\<rparr>"

text \<open>Reading through a pointer: \<^verbatim>\<open>p.element\<close>, \<^verbatim>\<open>p.next\<close>, \<^verbatim>\<open>p.prev\<close>.\<close>

definition deref :: "'a List \<Rightarrow> ref option \<Rightarrow> panic + 'a ListNode" where
  "deref b p =
     (case p of
        None \<Rightarrow> Inl NilDereference
      | Some r \<Rightarrow> (case cells b r of None \<Rightarrow> Inl NilDereference | Some n \<Rightarrow> Inr n))"

text \<open>Writing a field of the cell at \<open>r\<close>.\<close>

definition set_next :: "ref \<Rightarrow> ref option \<Rightarrow> 'a List \<Rightarrow> 'a List" where
  "set_next r p b = b\<lparr>cells := (cells b)(r := map_option (\<lambda>c. c\<lparr>next := p\<rparr>) (cells b r))\<rparr>"

definition set_prev :: "ref \<Rightarrow> ref option \<Rightarrow> 'a List \<Rightarrow> 'a List" where
  "set_prev r p b = b\<lparr>cells := (cells b)(r := map_option (\<lambda>c. c\<lparr>prev := p\<rparr>) (cells b r))\<rparr>"

text \<open>\<^verbatim>\<open>newNode\<close> allocates a cell whose two pointers are nil.\<close>

definition newNode :: "'a List \<Rightarrow> 'a \<Rightarrow> ref \<times> 'a List" where
  "newNode b el =
     (nextCell b,
      b\<lparr>cells := (cells b)(nextCell b \<mapsto> \<lparr>element = el, next = None, prev = None\<rparr>),
        nextCell := Suc (nextCell b)\<rparr>)"

text \<open>\<^verbatim>\<open>append\<close> and \<^verbatim>\<open>prepend\<close> take the pointer to a cell that is not nil.\<close>

definition append_node :: "'a List \<Rightarrow> ref \<Rightarrow> 'a List" where
  "append_node b bn =
     (let b1 = set_prev bn (tail b) b;
          b2 = (case tail b1 of None \<Rightarrow> b1 | Some t \<Rightarrow> set_next t (Some bn) b1);
          b3 = b2\<lparr>tail := Some bn\<rparr>;
          b4 = (if head b3 = None then b3\<lparr>head := Some bn\<rparr> else b3)
      in b4\<lparr>size_l := size_l b4 + 1\<rparr>)"

definition prepend_node :: "'a List \<Rightarrow> ref \<Rightarrow> 'a List" where
  "prepend_node b bn =
     (let b1 = set_next bn (head b) b;
          b2 = (case head b1 of None \<Rightarrow> b1 | Some hd_cell \<Rightarrow> set_prev hd_cell (Some bn) b1);
          b3 = b2\<lparr>head := Some bn\<rparr>;
          b4 = (if tail b3 = None then b3\<lparr>tail := Some bn\<rparr> else b3)
      in b4\<lparr>size_l := size_l b4 + 1\<rparr>)"

text \<open>In the source \<^verbatim>\<open>LPush\<close> appends at the tail and \<^verbatim>\<open>RPush\<close> prepends at the head.\<close>

fun LPush :: "'a List \<Rightarrow> 'a list \<Rightarrow> 'a List" where
  "LPush b [] = b"
| "LPush b (el # els) = (let (bn, b1) = newNode b el in LPush (append_node b1 bn) els)"

fun RPush :: "'a List \<Rightarrow> 'a list \<Rightarrow> 'a List" where
  "RPush b [] = b"
| "RPush b (el # els) = (let (bn, b1) = newNode b el in RPush (prepend_node b1 bn) els)"

text \<open>
  \<^verbatim>\<open>delete(bn)\<close> reads \<^verbatim>\<open>bn.next\<close> and \<^verbatim>\<open>bn.prev\<close>, so a nil \<open>bn\<close> is a panic. Its
  four statements write \<^verbatim>\<open>b.head\<close>, \<^verbatim>\<open>b.tail\<close>, the \<^verbatim>\<open>next\<close> field of the cell before
  and the \<^verbatim>\<open>prev\<close> field of the cell after; none of them changes what \<^verbatim>\<open>bn.next\<close> and
  \<^verbatim>\<open>bn.prev\<close> hold unless \<open>bn\<close> is its own neighbour, and then it writes the value that
  is there, so the two fields are read once.
\<close>

definition delete :: "'a List \<Rightarrow> ref option \<Rightarrow> panic + 'a List" where
  "delete b bn =
     (case deref b bn of
        Inl e \<Rightarrow> Inl e
      | Inr n \<Rightarrow>
          let b1 = (if bn = head b then b\<lparr>head := next n\<rparr> else b);
              b2 = (if bn = tail b1 then b1\<lparr>tail := prev n\<rparr> else b1);
              b3 = (case prev n of None \<Rightarrow> b2 | Some p \<Rightarrow> set_next p (next n) b2);
              b4 = (case next n of None \<Rightarrow> b3 | Some q \<Rightarrow> set_prev q (prev n) b3)
          in Inr (b4\<lparr>size_l := size_l b4 - 1\<rparr>))"

definition LPop :: "'a List \<Rightarrow> panic + (('a \<times> bool \<times> string option) \<times> 'a List)" where
  "LPop b =
     (case deref b (head b) of
        Inl e \<Rightarrow> Inl e
      | Inr n \<Rightarrow>
          (case delete b (head b) of
             Inl e \<Rightarrow> Inl e
           | Inr b' \<Rightarrow> Inr ((element n, size_l b' = 0, None), b')))"

definition RPop :: "'a List \<Rightarrow> panic + (('a \<times> bool \<times> string option) \<times> 'a List)" where
  "RPop b =
     (case deref b (tail b) of
        Inl e \<Rightarrow> Inl e
      | Inr n \<Rightarrow>
          (case delete b (tail b) of
             Inl e \<Rightarrow> Inl e
           | Inr b' \<Rightarrow> Inr ((element n, size_l b' = 0, None), b')))"

text \<open>
  The elements of a list from head to tail, following \<^verbatim>\<open>next\<close>: a partial function,
  since the walk need not end on an arbitrary heap.
\<close>

partial_function (option) walk ::
  "(ref \<rightharpoonup> 'a ListNode) \<Rightarrow> ref option \<Rightarrow> 'a list \<Rightarrow> 'a list option" where
  "walk h p acc =
     (case p of
        None \<Rightarrow> Some acc
      | Some r \<Rightarrow> (case h r of None \<Rightarrow> None | Some n \<Rightarrow> walk h (next n) (acc @ [element n])))"

declare walk.simps [code]

definition elements :: "'a List \<Rightarrow> 'a list option" where
  "elements b = walk (cells b) (head b) []"

text \<open>
  The shape of a list: the cells \<open>rs\<close> from head to tail are distinct, each points to
  its neighbours (\<open>before\<close> stands before the first cell and \<open>after\<close> behind the last),
  \<^verbatim>\<open>head\<close> and \<^verbatim>\<open>tail\<close> are the two ends, \<^verbatim>\<open>size\<close> counts them and the references
  of the cells are below \<open>nextCell\<close>. \<open>xs\<close> lists the elements.
\<close>

primrec linked ::
  "(ref \<rightharpoonup> 'a ListNode) \<Rightarrow> ref option \<Rightarrow> ref list \<Rightarrow> ref option \<Rightarrow> 'a list \<Rightarrow> bool" where
  "linked h before [] after xs \<longleftrightarrow> xs = []"
| "linked h before (r # rs) after xs \<longleftrightarrow>
     (case h r of
        None \<Rightarrow> False
      | Some n \<Rightarrow>
          (case xs of
             [] \<Rightarrow> False
           | x # xs' \<Rightarrow>
               element n = x \<and> prev n = before
               \<and> next n = (case rs of [] \<Rightarrow> after | r' # _ \<Rightarrow> Some r')
               \<and> linked h (Some r) rs after xs'))"

definition list_cells :: "'a List \<Rightarrow> ref list \<Rightarrow> 'a list \<Rightarrow> bool" where
  "list_cells b rs xs \<longleftrightarrow>
     distinct rs \<and> linked (cells b) None rs None xs
     \<and> head b = (case rs of [] \<Rightarrow> None | r # _ \<Rightarrow> Some r)
     \<and> tail b = (if rs = [] then None else Some (last rs))
     \<and> size_l b = int (length rs)
     \<and> list_all (\<lambda>r. r < nextCell b) rs"

definition is_list :: "'a List \<Rightarrow> 'a list \<Rightarrow> bool" where
  "is_list b xs \<longleftrightarrow> (\<exists>rs. list_cells b rs xs)"


section \<open>The list commands (package list, Eval)\<close>

text \<open>
  The evaluator of the list commands, whose text is in the source file
  \<^verbatim>\<open>internal/datastructures/bloom/error.go\<close> from the line \<^verbatim>\<open>package list\<close> on. It works
  on a \<^verbatim>\<open>store.Store[ds.DSInterface]\<close>, whose values are pointers to objects: a value of
  the store is a reference into a heap of objects, and an object is a list of the element
  type \<^verbatim>\<open>T\<close> of the evaluator or something else, for which the type assertion
  \<^verbatim>\<open>obj.(*List[T])\<close> fails. The record holds what a command reads and writes: the store
  and the heap of objects with its allocation counter. A command gets one reading
  \<open>now\<close> of the clock, which the store uses for the last-accessed timestamps.
\<close>

datatype 'a object = ListObject "'a List" | OtherObject

record 'a Eval =
  store_e :: "ref Store"
  objects :: "ref \<rightharpoonup> 'a object"
  nextObject :: ref

definition NewEval :: "ref Store \<Rightarrow> 'a Eval" where
  "NewEval s = \<lparr>store_e = s, objects = Map.empty, nextObject = 0\<rparr>"

definition defaultExpiry :: "64 word" where
  "defaultExpiry = - 1"

text \<open>
  The errors that the commands return: \<^verbatim>\<open>diceerrors.NewErrorWithMessage(cmd)\<close>, the two
  errors of \<^verbatim>\<open>getList\<close>, the error of a failed conversion of an argument and an error
  handed on from the list.
\<close>

datatype cmd_error =
    ErrorWithMessage string
  | NoSuchKey
  | WrongType
  | ConversionError
  | ListError string

text \<open>
  \<^verbatim>\<open>convertArgToType[T]\<close> parses an argument with the function of Go's \<^verbatim>\<open>strconv\<close> for
  the type \<^verbatim>\<open>T\<close> and fails when that function fails; for strings it never fails. The
  commands take the conversion as the parameter \<open>conv\<close>, with \<open>None\<close> for an error. Two
  instances follow: the one for strings, and the one for \<^verbatim>\<open>int\<close>, which is
  \<^verbatim>\<open>strconv.Atoi\<close>, written after the documentation of the Go library: an optional sign,
  then one or more decimal digits, and a value that fits in 64 bits.
\<close>

definition convertArgToType_string :: "string \<Rightarrow> string option" where
  "convertArgToType_string arg = Some arg"

definition is_digit :: "char \<Rightarrow> bool" where
  "is_digit c \<longleftrightarrow> CHR ''0'' \<le> c \<and> c \<le> CHR ''9''"

fun digits_value :: "nat \<Rightarrow> string \<Rightarrow> nat option" where
  "digits_value acc [] = Some acc"
| "digits_value acc (c # cs) =
     (if is_digit c then digits_value (10 * acc + (of_char c - 48)) cs else None)"

definition Atoi :: "string \<Rightarrow> int option" where
  "Atoi s =
     (let (neg, ds) =
            (case s of
               [] \<Rightarrow> (False, [])
             | c # r \<Rightarrow> if c = CHR ''-'' then (True, r)
                        else if c = CHR ''+'' then (False, r) else (False, s))
      in if ds = [] then None
         else (case digits_value 0 ds of
                 None \<Rightarrow> None
               | Some n \<Rightarrow>
                   let v = (if neg then - int n else int n)
                   in if - (2 ^ 63) \<le> v \<and> v < 2 ^ 63 then Some v else None))"

definition convertArgToType_int :: "string \<Rightarrow> int option" where
  "convertArgToType_int arg = Atoi arg"

text \<open>
  \<^verbatim>\<open>getList\<close> and \<^verbatim>\<open>getOrCreateList\<close>. The list that \<^verbatim>\<open>getOrCreateList\<close> makes is the
  zero value \<^verbatim>\<open>&List[T]{}\<close>, with size 0 and both pointers nil, which is what
  \<^verbatim>\<open>NewLists\<close> returns; it is put into the store before anything is pushed.
\<close>

definition getList :: "'a Eval \<Rightarrow> string \<Rightarrow> 64 word \<Rightarrow> (cmd_error + ref) \<times> 'a Eval" where
  "getList e key now =
     (let ((obj, exists), s1) = Get (store_e e) key now;
          e1 = e\<lparr>store_e := s1\<rparr>
      in if \<not> exists then (Inl NoSuchKey, e1)
         else (case obj of
                 None \<Rightarrow> (Inl WrongType, e1)
               | Some p \<Rightarrow>
                   (case objects e1 p of
                      Some (ListObject b) \<Rightarrow> (Inr p, e1)
                    | _ \<Rightarrow> (Inl WrongType, e1))))"

definition getOrCreateList ::
  "'a Eval \<Rightarrow> string \<Rightarrow> 64 word \<Rightarrow> (cmd_error + ref) \<times> 'a Eval" where
  "getOrCreateList e key now =
     (let ((obj, exists), s1) = Get (store_e e) key now;
          e1 = e\<lparr>store_e := s1\<rparr>
      in if \<not> exists
         then (let list = nextObject e1;
                   e2 = e1\<lparr>objects := (objects e1)(list \<mapsto> ListObject NewLists),
                           nextObject := Suc list\<rparr>
               in (Inr list, e2\<lparr>store_e := Put (store_e e2) key list defaultExpiry now\<rparr>))
         else (case obj of
                 None \<Rightarrow> (Inl WrongType, e1)
               | Some p \<Rightarrow>
                   (case objects e1 p of
                      Some (ListObject b) \<Rightarrow> (Inr p, e1)
                    | _ \<Rightarrow> (Inl WrongType, e1))))"

text \<open>
  The loops of \<^verbatim>\<open>LPUSH\<close> and \<^verbatim>\<open>RPUSH\<close> over the value arguments: the first argument
  that does not convert ends the command with the error, and what was pushed before
  stays in the list.
\<close>

fun LPUSH_loop :: "(string \<Rightarrow> 'a option) \<Rightarrow> string list \<Rightarrow> 'a List \<Rightarrow> cmd_error option \<times> 'a List" where
  "LPUSH_loop conv [] b = (None, b)"
| "LPUSH_loop conv (valueStr # rest) b =
     (case conv valueStr of
        None \<Rightarrow> (Some ConversionError, b)
      | Some v \<Rightarrow> LPUSH_loop conv rest (LPush b [v]))"

fun RPUSH_loop :: "(string \<Rightarrow> 'a option) \<Rightarrow> string list \<Rightarrow> 'a List \<Rightarrow> cmd_error option \<times> 'a List" where
  "RPUSH_loop conv [] b = (None, b)"
| "RPUSH_loop conv (valueStr # rest) b =
     (case conv valueStr of
        None \<Rightarrow> (Some ConversionError, b)
      | Some v \<Rightarrow> RPUSH_loop conv rest (RPush b [v]))"

text \<open>
  \<^verbatim>\<open>LPUSH\<close> and \<^verbatim>\<open>RPUSH\<close>: the list is reached through its pointer, so what the loop
  has done to it is in the heap also when the command returns an error. The last case
  cannot occur, since \<^verbatim>\<open>getOrCreateList\<close> returns the pointer to a list; it stands for
  the type of the pointer.
\<close>

definition LPUSH ::
  "(string \<Rightarrow> 'a option) \<Rightarrow> 'a Eval \<Rightarrow> string list \<Rightarrow> 64 word
     \<Rightarrow> (cmd_error + int) \<times> 'a Eval" where
  "LPUSH conv e args now =
     (if length args < 2 then (Inl (ErrorWithMessage ''LPUSH''), e)
      else (case getOrCreateList e (hd args) now of
              (Inl err, e1) \<Rightarrow> (Inl err, e1)
            | (Inr list, e1) \<Rightarrow>
                (case objects e1 list of
                   Some (ListObject b) \<Rightarrow>
                     (let (err, b') = LPUSH_loop conv (tl args) b;
                          e2 = e1\<lparr>objects := (objects e1)(list \<mapsto> ListObject b')\<rparr>
                      in (case err of
                            Some x \<Rightarrow> (Inl x, e2)
                          | None \<Rightarrow> (Inr (size_l b'), e2)))
                 | _ \<Rightarrow> (Inl WrongType, e1))))"

definition RPUSH ::
  "(string \<Rightarrow> 'a option) \<Rightarrow> 'a Eval \<Rightarrow> string list \<Rightarrow> 64 word
     \<Rightarrow> (cmd_error + int) \<times> 'a Eval" where
  "RPUSH conv e args now =
     (if length args < 2 then (Inl (ErrorWithMessage ''RPUSH''), e)
      else (case getOrCreateList e (hd args) now of
              (Inl err, e1) \<Rightarrow> (Inl err, e1)
            | (Inr list, e1) \<Rightarrow>
                (case objects e1 list of
                   Some (ListObject b) \<Rightarrow>
                     (let (err, b') = RPUSH_loop conv (tl args) b;
                          e2 = e1\<lparr>objects := (objects e1)(list \<mapsto> ListObject b')\<rparr>
                      in (case err of
                            Some x \<Rightarrow> (Inl x, e2)
                          | None \<Rightarrow> (Inr (size_l b'), e2)))
                 | _ \<Rightarrow> (Inl WrongType, e1))))"

text \<open>
  \<^verbatim>\<open>LPOP\<close> and \<^verbatim>\<open>RPOP\<close>: the list is looked up with \<^verbatim>\<open>getList\<close> and popped, and its
  key is deleted from the store when the pop reports that the list has become empty. A
  panic of the pop is a panic of the command.
\<close>

definition LPOP ::
  "'a Eval \<Rightarrow> string list \<Rightarrow> 64 word \<Rightarrow> panic + ((cmd_error + 'a) \<times> 'a Eval)" where
  "LPOP e args now =
     (if length args \<noteq> 1 then Inr (Inl (ErrorWithMessage ''LPOP''), e)
      else (case getList e (hd args) now of
              (Inl err, e1) \<Rightarrow> Inr (Inl err, e1)
            | (Inr list, e1) \<Rightarrow>
                (case objects e1 list of
                   Some (ListObject b) \<Rightarrow>
                     (case LPop b of
                        Inl p \<Rightarrow> Inl p
                      | Inr ((v, now_empty, err), b') \<Rightarrow>
                          (let e2 = e1\<lparr>objects := (objects e1)(list \<mapsto> ListObject b')\<rparr>
                           in (case err of
                                 Some x \<Rightarrow> Inr (Inl (ListError x), e2)
                               | None \<Rightarrow>
                                   Inr (Inr v,
                                        if now_empty
                                        then e2\<lparr>store_e := snd (Delete (store_e e2) (hd args))\<rparr>
                                        else e2))))
                 | _ \<Rightarrow> Inr (Inl WrongType, e1))))"

definition RPOP ::
  "'a Eval \<Rightarrow> string list \<Rightarrow> 64 word \<Rightarrow> panic + ((cmd_error + 'a) \<times> 'a Eval)" where
  "RPOP e args now =
     (if length args \<noteq> 1 then Inr (Inl (ErrorWithMessage ''RPOP''), e)
      else (case getList e (hd args) now of
              (Inl err, e1) \<Rightarrow> Inr (Inl err, e1)
            | (Inr list, e1) \<Rightarrow>
                (case objects e1 list of
                   Some (ListObject b) \<Rightarrow>
                     (case RPop b of
                        Inl p \<Rightarrow> Inl p
                      | Inr ((v, now_empty, err), b') \<Rightarrow>
                          (let e2 = e1\<lparr>objects := (objects e1)(list \<mapsto> ListObject b')\<rparr>
                           in (case err of
                                 Some x \<Rightarrow> Inr (Inl (ListError x), e2)
                               | None \<Rightarrow>
                                   Inr (Inr v,
                                        if now_empty
                                        then e2\<lparr>store_e := snd (Delete (store_e e2) (hd args))\<rparr>
                                        else e2))))
                 | _ \<Rightarrow> Inr (Inl WrongType, e1))))"
section \<open>Properties of the store\<close>

lemma store_wf_New: "store_wf NewStore"
  by (simp add: store_wf_def NewStore_def)

lemma store_wf_Put: "store_wf s \<Longrightarrow> store_wf (Put s k v d now)"
  by (auto simp: store_wf_def Put_def Let_def UpdateLastAccessedAt_def
           dest: less_SucI split: if_splits)

lemma store_wf_Get: "store_wf s \<Longrightarrow> store_wf (snd (Get s k now))"
  by (auto simp: store_wf_def Get_def UpdateLastAccessedAt_def split: option.splits)

lemma store_wf_Delete: "store_wf s \<Longrightarrow> store_wf (snd (Delete s k))"
  by (auto simp: store_wf_def Delete_def split: option.splits)

lemma store_wf_SetExpiry: "store_wf s \<Longrightarrow> store_wf (SetExpiry s k d now)"
  by (auto simp: store_wf_def SetExpiry_def dest: less_SucI split: option.splits if_splits)

lemma store_wf_apply: "store_wf s \<Longrightarrow> store_wf (apply_store_op s x)"
  by (cases x) (simp_all add: store_wf_Put store_wf_Get store_wf_Delete store_wf_SetExpiry)

lemma store_wf_foldl: "store_wf s \<Longrightarrow> store_wf (foldl apply_store_op s ops)"
  by (induction ops arbitrary: s) (simp_all add: store_wf_apply)

lemma store_wf_run: "store_wf (run_store ops)"
  by (simp add: run_store_def store_wf_foldl store_wf_New)

lemma expires_fresh: "store_wf s \<Longrightarrow> expires s (allocated s) = None"
  by (force simp: store_wf_def)

lemma GetExpiry_wf: "store_wf s \<Longrightarrow> GetExpiry s k = (0, False)"
  by (simp add: GetExpiry_def expires_fresh split: option.splits)

lemma GetExpiry_run: "GetExpiry (Put (run_store ops) k v d now) k = (0, False)"
  by (rule GetExpiry_wf) (rule store_wf_Put, rule store_wf_run)

text \<open>
  C1. After \<^verbatim>\<open>Put(k, v, d)\<close> with a positive \<open>d\<close> the claim expects \<^verbatim>\<open>GetExpiry(k)\<close>
  to find the deadline \<open>now + d\<close>. On the new store, \<^verbatim>\<open>Put("k", v, 1000)\<close> at any time
  \<open>now\<close> writes the bare duration 1000 into the table (not \<open>now + 1000\<close>, which is what
  \<^verbatim>\<open>SetExpiry\<close> writes), under the address of its own parameter, and the immediate
  \<^verbatim>\<open>GetExpiry("k")\<close> looks under the address of another variable: it returns
  \<open>(0, false)\<close>.
\<close>

theorem Put_then_GetExpiry_not_found:
  "GetExpiry (Put NewStore ''k'' v 1000 now) ''k'' = (0, False)
   \<and> expires (Put NewStore ''k'' v 1000 now) = [0 \<mapsto> 1000]"
  by (simp add: GetExpiry_def Put_def NewStore_def UpdateLastAccessedAt_def Let_def)

text \<open>
  C2, as amended. \<^verbatim>\<open>Get\<close> never reads the table of deadlines: for a key of the key
  table, whatever has been recorded for it and whatever the time of the call, it
  returns the stored value with \<open>found = true\<close> and stamps the value's last-accessed
  time to now, leaving both tables as they were; for a key that is not in the key
  table it returns \<open>found = false\<close> and changes nothing.
\<close>

theorem Get_ignores_deadlines:
  "(\<forall>v. store s k = Some v \<longrightarrow>
        fst (Get s k now) = (Some v, True)
      \<and> lastAccessedAt (snd (Get s k now)) v = now
      \<and> store (snd (Get s k now)) = store s
      \<and> expires (snd (Get s k now)) = expires s)
   \<and> (store s k = None \<longrightarrow> Get s k now = ((None, False), s))"
  by (simp add: Get_def UpdateLastAccessedAt_def)

text \<open>
  Witness for C2: the key \<open>k\<close> is put at time 100 and given a life of 50 ms by
  \<^verbatim>\<open>SetExpiry\<close>; at time 1000 \<^verbatim>\<open>Get\<close> still finds it. A key never put is not found.
\<close>

theorem Get_ignores_deadlines_witness:
  "store (SetExpiry (Put NewStore ''k'' (7::nat) 0 100) ''k'' 50 100) ''k'' = Some 7
   \<and> fst (Get (SetExpiry (Put NewStore ''k'' (7::nat) 0 100) ''k'' 50 100) ''k'' 1000)
       = (Some 7, True)
   \<and> lastAccessedAt
        (snd (Get (SetExpiry (Put NewStore ''k'' (7::nat) 0 100) ''k'' 50 100) ''k'' 1000)) 7
       = 1000
   \<and> store (NewStore :: nat Store) ''k'' = None
   \<and> Get (NewStore :: nat Store) ''k'' 1000 = ((None, False), NewStore)"
proof -
  let ?s = "SetExpiry (Put NewStore ''k'' (7::nat) 0 100) ''k'' 50 100"
  have present: "store ?s ''k'' = Some 7"
    by (simp add: SetExpiry_def Put_def NewStore_def UpdateLastAccessedAt_def Let_def)
  have absent: "store (NewStore :: nat Store) ''k'' = None"
    by (simp add: NewStore_def)
  from Get_ignores_deadlines [of ?s "''k''" 1000] present
  have "fst (Get ?s ''k'' 1000) = (Some 7, True)"
    and "lastAccessedAt (snd (Get ?s ''k'' 1000)) 7 = 1000"
    by blast+
  moreover from Get_ignores_deadlines [of "NewStore :: nat Store" "''k''" 1000] absent
  have "Get (NewStore :: nat Store) ''k'' 1000 = ((None, False), NewStore)"
    by blast
  ultimately show ?thesis
    using present absent by simp
qed

text \<open>
  Counterexample to C2 as stated: the deadline recorded for \<open>k\<close> is 150, the call is at
  time 1000, and \<^verbatim>\<open>Get\<close> returns the value with \<open>found = true\<close>.
\<close>

theorem Get_expired_counterexample:
  "expires (SetExpiry (Put NewStore ''k'' (7::nat) 0 100) ''k'' 50 100) = [1 \<mapsto> 150]
   \<and> (150 :: 64 word) < 1000
   \<and> fst (Get (SetExpiry (Put NewStore ''k'' (7::nat) 0 100) ''k'' 50 100) ''k'' 1000)
       = (Some 7, True)"
  by (simp add: Get_def SetExpiry_def Put_def NewStore_def UpdateLastAccessedAt_def Let_def)

text \<open>
  C3, as amended. \<^verbatim>\<open>Delete(k)\<close> returns whether the key was in the key table, removes
  it from the key table and leaves the table of deadlines as it was; afterwards
  \<^verbatim>\<open>GetExpiry(k)\<close> returns \<open>found = false\<close>, and a second \<^verbatim>\<open>Delete(k)\<close> returns
  \<open>false\<close> and leaves the store unchanged.
\<close>

theorem Delete_removes_key_only:
  "fst (Delete s k) = (store s k \<noteq> None)
   \<and> store (snd (Delete s k)) = (store s)(k := None)
   \<and> expires (snd (Delete s k)) = expires s
   \<and> GetExpiry (snd (Delete s k)) k = (0, False)
   \<and> Delete (snd (Delete s k)) k = (False, snd (Delete s k))"
  by (cases "store s k") (simp_all add: Delete_def GetExpiry_def fun_upd_idem)

text \<open>
  Counterexample to C3 as stated: the record that \<^verbatim>\<open>Put("k", 7, 1000)\<close> wrote into the
  table of deadlines is still there after \<^verbatim>\<open>Delete("k")\<close>.
\<close>

theorem Delete_keeps_deadline_counterexample:
  "fst (Delete (Put NewStore ''k'' (7::nat) 1000 5) ''k'') = True
   \<and> expires (snd (Delete (Put NewStore ''k'' (7::nat) 1000 5) ''k'')) = [0 \<mapsto> 1000]"
  by (simp add: Delete_def Put_def NewStore_def UpdateLastAccessedAt_def Let_def)

text \<open>
  C4, as amended. For a duration \<open>d \<le> 0\<close>, \<^verbatim>\<open>Put(k, v, d)\<close> writes nothing into the
  table of deadlines and removes nothing from it (a record written by an earlier
  \<^verbatim>\<open>Put\<close> or \<^verbatim>\<open>SetExpiry\<close> stays), and in every store reached from the new one by
  operations of the store, a \<^verbatim>\<open>GetExpiry(k)\<close> after it returns \<open>found = false\<close>.
\<close>

theorem Put_nonpositive_no_deadline:
  "sint d \<le> 0 \<Longrightarrow>
     expires (Put s k v d now) = expires s
     \<and> GetExpiry (Put (run_store ops) k v d now) k = (0, False)"
proof -
  assume "sint d \<le> 0"
  then have "expires (Put s k v d now) = expires s"
    by (simp add: Put_def Let_def UpdateLastAccessedAt_def)
  then show ?thesis
    by (simp only: GetExpiry_run simp_thms)
qed

text \<open>
  Witness for C4: an earlier \<^verbatim>\<open>Put\<close> with a life of 1000 ms, then \<^verbatim>\<open>Put\<close> with
  duration 0 on the same key.
\<close>

theorem Put_nonpositive_no_deadline_witness:
  "sint (0 :: 64 word) \<le> 0
   \<and> expires (Put (Put NewStore ''k'' (7::nat) 1000 5) ''k'' 7 0 6)
       = expires (Put NewStore ''k'' (7::nat) 1000 5)
   \<and> GetExpiry (Put (run_store [OpPut ''k'' (7::nat) 1000 5]) ''k'' 7 0 6) ''k'' = (0, False)"
proof -
  have h: "sint (0 :: 64 word) \<le> 0" by simp
  from Put_nonpositive_no_deadline [OF h, of "Put NewStore ''k'' (7::nat) 1000 5" "''k''" 7 6
      "[OpPut ''k'' (7::nat) 1000 5]"]
  show ?thesis using h by simp
qed

text \<open>
  Counterexample to C4 as stated: after \<^verbatim>\<open>Put("k", 7, 1000)\<close> and \<^verbatim>\<open>Put("k", 7, 0)\<close>
  the deadline written by the first call is still in the table.
\<close>

theorem Put_keeps_deadline_counterexample:
  "expires (Put (Put NewStore ''k'' (7::nat) 1000 5) ''k'' 7 0 6) = [0 \<mapsto> 1000]"
  by (simp add: Put_def NewStore_def UpdateLastAccessedAt_def Let_def)
section \<open>Properties of the sorted set\<close>

text \<open>
  C8. \<^verbatim>\<open>ZRank\<close> should return the zero-based position of a member in ascending order
  and \<^verbatim>\<open>ZRevRank\<close> the position from the other end. \<^verbatim>\<open>findNodeIndex\<close> counts only
  the steps of its descent that are taken at level 0, so the nodes skipped at a higher
  level are missing from the rank. With a random source whose first draw is below
  \<^verbatim>\<open>probability\<close>, \<^verbatim>\<open>ZAdd({"a": 1})\<close> gives the node of \<open>a\<close> two levels; after
  \<^verbatim>\<open>ZAdd({"b": 2})\<close> the traversal is \<open>a, b\<close>, and \<^verbatim>\<open>ZRank("b")\<close> is 0 where the
  position of \<open>b\<close> is 1, and \<^verbatim>\<open>ZRevRank("b")\<close> is 1 where it should be 0.
\<close>

theorem ZRank_skips_higher_levels:
  "do {
     (n1, ss1) \<leftarrow> ZAdd (NewSortedSet (Num []) (Num (- 1)) (\<lambda>n. n = 0)) [(Num ''a'', Num (1::int))];
     (n2, ss2) \<leftarrow> ZAdd ss1 [(Num ''b'', Num 2)];
     Some (level0 ss2, ZRange ss2 0 (- 1) False, length_ss ss2,
           ZRank ss2 (Num ''a''), ZRank ss2 (Num ''b''), ZRevRank ss2 (Num ''a''), ZRevRank ss2 (Num ''b''))
   } = Some (Some [(Num ''a'', Num 1), (Num ''b'', Num 2)], Some [Member (Num ''a''), Member (Num ''b'')], 2,
             Some (0, True), Some (0, True), Some (1, True), Some (1, True))"
  by code_simp

subsection \<open>Loops\<close>

lemma for_loop_append:
  "for_loop body (is @ js) s =
     (case for_loop body is s of None \<Rightarrow> None | Some s' \<Rightarrow> for_loop body js s')"
  by (induction "is" arbitrary: s) (auto split: option.splits)

lemma for_loop_snoc:
  "for_loop body (is @ [j]) s =
     (case for_loop body is s of None \<Rightarrow> None | Some s' \<Rightarrow> body j s')"
  by (simp add: for_loop_append split: option.splits)

subsection \<open>Reading and writing forward pointers\<close>

lemma height_alt: "height h r = (case h r of None \<Rightarrow> 0 | Some n \<Rightarrow> length (forward n))"
  by (simp add: height_def shape_def split: option.splits)

lemma get_forward_defined: "(\<exists>p. get_forward h r i = Some p) \<longleftrightarrow> i < height h r"
  by (auto simp: get_forward_def nth_opt_def height_alt split: option.splits)

lemma get_forward_None: "get_forward h r i = None \<longleftrightarrow> \<not> i < height h r"
  using get_forward_defined [of h r i] by auto

lemma set_forward_defined: "i < height h x \<Longrightarrow> \<exists>h'. set_forward h x i p = Some h'"
  by (auto simp: set_forward_def height_alt split: option.splits)

lemma set_forward_get:
  "set_forward h x i p = Some h' \<Longrightarrow>
     get_forward h' y j = (if y = x \<and> j = i then Some p else get_forward h y j)"
  by (auto simp: set_forward_def get_forward_def nth_opt_def nth_list_update
           split: option.splits if_splits)

lemma set_forward_shape: "set_forward h x i p = Some h' \<Longrightarrow> shape h' = shape h"
  by (rule ext) (auto simp: set_forward_def shape_def split: option.splits if_splits)

lemma shape_height: "shape h' = shape h \<Longrightarrow> height h' = height h"
  by (rule ext) (simp add: height_def)

lemma shape_Some_height: "shape h r = Some (e, l) \<Longrightarrow> height h r = l"
  by (simp add: height_def)

subsection \<open>Chains\<close>

lemma chain_Cons:
  "chain h i p (r # rs) q \<longleftrightarrow>
     p = Some r \<and> (\<exists>p'. get_forward h r i = Some p' \<and> chain h i p' rs q)"
  by (cases "get_forward h r i") simp_all

declare chain.simps(2) [simp del]

lemma chain_append:
  "chain h i p (as @ bs) q \<longleftrightarrow> (\<exists>m. chain h i p as m \<and> chain h i m bs q)"
  by (induction as arbitrary: p) (auto simp: chain_Cons)

lemma chain_frame:
  "(\<And>r. r \<in> set rs \<Longrightarrow> get_forward h' r i = get_forward h r i) \<Longrightarrow>
     chain h' i p rs q = chain h i p rs q"
  by (induction rs arbitrary: p) (auto simp: chain_Cons)

lemma chain_height: "chain h i p rs q \<Longrightarrow> r \<in> set rs \<Longrightarrow> i < height h r"
  by (induction rs arbitrary: p) (auto simp: chain_Cons get_forward_defined [symmetric])

subsection \<open>The order of entries\<close>

lemma precedes_entry_less: "precedes n sc mem \<longleftrightarrow> entry_less (member n, score n) (mem, sc)"
  by (simp add: precedes_def entry_less_def)

lemma flt_Num_iff: "flt a b \<longleftrightarrow> (\<exists>x y. a = Num x \<and> b = Num y \<and> x < y)"
  by (cases a; cases b) auto

lemma feq_Num_iff: "feq a b \<longleftrightarrow> (\<exists>x. a = Num x \<and> b = Num x)"
  by (cases a; cases b) auto

lemma entry_less_trans: "entry_less a b \<Longrightarrow> entry_less b c \<Longrightarrow> entry_less a c"
  by (auto simp: entry_less_def flt_Num_iff feq_Num_iff)

lemma entry_less_irrefl: "\<not> entry_less a a"
  by (auto simp: entry_less_def flt_Num_iff feq_Num_iff)

lemma entry_less_asym: "entry_less a b \<Longrightarrow> \<not> entry_less b a"
  by (auto simp: entry_less_def flt_Num_iff feq_Num_iff)

lemma entry_less_total:
  "entry_num a \<Longrightarrow> entry_num b \<Longrightarrow> entry_less a b \<or> entry_less b a \<or> a = b"
  by (cases a; cases b; cases "fst a"; cases "fst b"; cases "snd a"; cases "snd b")
    (auto simp: entry_less_def entry_num_def)

lemma entry_less_members:
  "entry_num a \<Longrightarrow> entry_num b \<Longrightarrow> fst a \<noteq> fst b \<Longrightarrow> \<not> entry_less a b \<Longrightarrow> entry_less b a"
  using entry_less_total [of a b] by auto

subsection \<open>Go maps\<close>

lemma feq_NaN_right [simp]: "feq a NaN = False"
  by (cases a) simp_all

lemma feq_eq: "feq a b \<Longrightarrow> a = b"
  by (cases a; cases b) simp_all

lemma feq_refl: "a \<noteq> NaN \<Longrightarrow> feq a a"
  by (cases a) simp_all

lemma feq_iff_eq: "k \<noteq> NaN \<Longrightarrow> feq k' k \<longleftrightarrow> k' = k"
  by (cases k; cases k') simp_all

lemma dict_get_Nil [simp]: "dict_get [] k = None"
  by (simp add: dict_get_def)

lemma dict_get_Cons:
  "dict_get (e # d) k = (if feq (fst e) k then Some (snd e) else dict_get d k)"
  by (simp add: dict_get_def)

lemma dict_get_NaN [simp]: "dict_get d NaN = None"
  by (induction d) (simp_all add: dict_get_Cons)

lemma dict_get_keys: "dict_get d k = Some v \<Longrightarrow> k \<in> fst ` set d"
proof (induction d)
  case Nil
  then show ?case by simp
next
  case (Cons e d)
  show ?case
  proof (cases "feq (fst e) k")
    case True
    from feq_eq [OF this] show ?thesis by simp
  next
    case False
    with Cons show ?thesis by (simp add: dict_get_Cons)
  qed
qed

lemma keys_dict_get: "k \<in> fst ` set d \<Longrightarrow> k \<noteq> NaN \<Longrightarrow> dict_get d k \<noteq> None"
proof (induction d)
  case Nil
  then show ?case by simp
next
  case (Cons e d)
  show ?case
  proof (cases "fst e = k")
    case True
    with feq_refl [OF Cons.prems(2)] show ?thesis by (simp add: dict_get_Cons)
  next
    case False
    with Cons show ?thesis by (simp add: dict_get_Cons)
  qed
qed

lemma dict_get_replace:
  assumes "k \<noteq> NaN"
  shows "dict_get (map (\<lambda>e. if feq (fst e) k then (fst e, v) else e) d) k'
       = (if k' = k \<and> list_ex (\<lambda>e. feq (fst e) k) d then Some v else dict_get d k')"
proof (induction d)
  case Nil
  then show ?case by simp
next
  case (Cons e d)
  show ?case
  proof (cases "feq (fst e) k")
    case True
    from feq_eq [OF True] have ek: "fst e = k" .
    show ?thesis
    proof (cases "k' = k")
      case True
      with ek feq_refl [OF assms] show ?thesis by (simp add: dict_get_Cons)
    next
      case False
      then have "\<not> feq k k'" using feq_eq by blast
      with False ek \<open>feq (fst e) k\<close> Cons.IH show ?thesis by (simp add: dict_get_Cons)
    qed
  next
    case False
    have "\<not> feq (fst e) k'" if "k' = k" using that False by simp
    with False Cons.IH show ?thesis by (auto simp: dict_get_Cons)
  qed
qed

lemma dict_get_snoc:
  "dict_get (d @ [(k, v)]) k'
     = (case dict_get d k' of Some r \<Rightarrow> Some r | None \<Rightarrow> if feq k k' then Some v else None)"
  by (induction d) (simp_all add: dict_get_Cons)

lemma dict_get_absent: "\<not> list_ex (\<lambda>e. feq (fst e) k) d \<Longrightarrow> dict_get d k = None"
  by (induction d) (simp_all add: dict_get_Cons)

lemma dict_get_put:
  assumes "k \<noteq> NaN"
  shows "dict_get (dict_put d k v) k' = (if k' = k then Some v else dict_get d k')"
proof (cases "list_ex (\<lambda>e. feq (fst e) k) d")
  case True
  then show ?thesis by (simp add: dict_put_def dict_get_replace [OF assms])
next
  case False
  from dict_get_absent [OF this] have none: "dict_get d k = None" .
  have put: "dict_put d k v = d @ [(k, v)]" using False by (simp add: dict_put_def)
  show ?thesis
  proof (cases "k' = k")
    case True
    with none feq_refl [OF assms] show ?thesis by (simp add: put dict_get_snoc)
  next
    case False
    then have "\<not> feq k k'" using feq_eq by blast
    with False show ?thesis by (simp add: put dict_get_snoc split: option.splits)
  qed
qed

lemma dict_get_delete:
  assumes "k \<noteq> NaN"
  shows "dict_get (dict_delete d k) k' = (if k' = k then None else dict_get d k')"
proof (induction d)
  case Nil
  then show ?case by (simp add: dict_delete_def)
next
  case (Cons e d)
  have step: "dict_delete (e # d) k = (if feq (fst e) k then dict_delete d k else e # dict_delete d k)"
    by (simp add: dict_delete_def)
  show ?case
  proof (cases "feq (fst e) k")
    case True
    from feq_eq [OF True] have ek: "fst e = k" .
    show ?thesis
    proof (cases "k' = k")
      case True
      with Cons.IH \<open>feq (fst e) k\<close> show ?thesis by (simp add: step)
    next
      case False
      then have "\<not> feq k k'" using feq_eq by blast
      with False ek Cons.IH \<open>feq (fst e) k\<close> show ?thesis by (simp add: step dict_get_Cons)
    qed
  next
    case False
    have "\<not> feq (fst e) k'" if "k' = k" using that False by simp
    with False Cons.IH show ?thesis by (auto simp: step dict_get_Cons)
  qed
qed

lemma keys_replace:
  "map fst (map (\<lambda>e. if feq (fst e) k then (fst e, v) else e) d) = map fst d"
  by (induction d) simp_all

lemma keys_put:
  assumes "k \<noteq> NaN"
  shows "set (map fst (dict_put d k v)) = insert k (set (map fst d))"
proof (cases "list_ex (\<lambda>e. feq (fst e) k) d")
  case True
  then obtain e where e: "e \<in> set d" "feq (fst e) k" unfolding list_ex_iff by blast
  from feq_eq [OF e(2)] e(1) have k: "k \<in> set (map fst d)" by force
  have "dict_put d k v = map (\<lambda>e. if feq (fst e) k then (fst e, v) else e) d"
    using True by (simp add: dict_put_def)
  then have "map fst (dict_put d k v) = map fst d" by (simp only: keys_replace)
  with k show ?thesis by auto
next
  case False
  then show ?thesis by (simp add: dict_put_def)
qed

lemma distinct_keys_put:
  assumes "k \<noteq> NaN" and "distinct (map fst d)"
  shows "distinct (map fst (dict_put d k v))"
proof (cases "list_ex (\<lambda>e. feq (fst e) k) d")
  case True
  then have "dict_put d k v = map (\<lambda>e. if feq (fst e) k then (fst e, v) else e) d"
    by (simp add: dict_put_def)
  then have "map fst (dict_put d k v) = map fst d" by (simp only: keys_replace)
  with assms(2) show ?thesis by simp
next
  case False
  have "k \<notin> set (map fst d)"
  proof
    assume "k \<in> set (map fst d)"
    then obtain e where "e \<in> set d" "fst e = k" by auto
    with feq_refl [OF assms(1)] have "list_ex (\<lambda>e. feq (fst e) k) d"
      unfolding list_ex_iff by blast
    with False show False by simp
  qed
  with False assms(2) show ?thesis by (simp add: dict_put_def)
qed

lemma keys_delete:
  assumes "k \<noteq> NaN"
  shows "set (map fst (dict_delete d k)) = set (map fst d) - {k}"
proof -
  have "dict_delete d k = filter (\<lambda>e. fst e \<noteq> k) d"
    unfolding dict_delete_def by (rule filter_cong) (simp_all add: feq_iff_eq [OF assms])
  then show ?thesis by auto
qed

lemma distinct_keys_delete: "distinct (map fst d) \<Longrightarrow> distinct (map fst (dict_delete d k))"
  by (simp add: dict_delete_def distinct_map_filter)

subsection \<open>The search\<close>

lemma shape_node:
  "shape h r = Some (e, l) \<Longrightarrow> \<exists>n. h r = Some n \<and> member n = fst e \<and> score n = snd e \<and> length (forward n) = l"
  by (auto simp: shape_def)

lemma seek_chain:
  assumes "get_forward h x i = Some p" and "chain h i p (map cref cs) None"
    and "\<forall>c \<in> set cs. shape h (cref c) = Some (centry c, cheight c)"
  shows "seek h i sc mem x
    = Some (last (x # map cref (takeWhile (\<lambda>c. entry_less (centry c) (mem, sc)) cs)))"
  using assms
proof (induction cs arbitrary: x p)
  case Nil
  then show ?case by (subst seek.simps) simp
next
  case (Cons c cs)
  from Cons.prems(2) obtain p' where p: "p = Some (cref c)"
      "get_forward h (cref c) i = Some p'" "chain h i p' (map cref cs) None"
    by (auto simp: chain_Cons)
  from Cons.prems(3) obtain n where n: "h (cref c) = Some n" "member n = fst (centry c)"
      "score n = snd (centry c)"
    using shape_node [of h "cref c" "centry c" "cheight c"] by auto
  have pe: "precedes n sc mem \<longleftrightarrow> entry_less (centry c) (mem, sc)"
    by (simp add: precedes_entry_less n)
  show ?case
  proof (cases "entry_less (centry c) (mem, sc)")
    case True
    have "seek h i sc mem x = seek h i sc mem (cref c)"
      by (subst seek.simps) (simp add: Cons.prems(1) p n pe True)
    also have "\<dots> = Some (last (cref c # map cref (takeWhile (\<lambda>c. entry_less (centry c) (mem, sc)) cs)))"
      by (rule Cons.IH [OF p(2) p(3)]) (use Cons.prems(3) in simp)
    finally show ?thesis using True by simp
  next
    case False
    have "seek h i sc mem x = Some x"
      by (subst seek.simps) (simp add: Cons.prems(1) p n pe False)
    then show ?thesis using False by simp
  qed
qed

lemma takeWhile_split:
  "\<forall>a \<in> set as. P a \<Longrightarrow> \<forall>b \<in> set bs. \<not> P b \<Longrightarrow> takeWhile P (as @ bs) = as"
  by (cases bs) (simp_all add: takeWhile_append2)

lemma seek_level:
  assumes ch: "chain h i (Some hdr) (hdr # map cref (As @ Bs)) None"
    and ag: "\<forall>c \<in> set (As @ Bs). shape h (cref c) = Some (centry c, cheight c)"
    and A: "\<forall>c \<in> set As. entry_less (centry c) (mem, sc)"
    and B: "\<forall>c \<in> set Bs. \<not> entry_less (centry c) (mem, sc)"
    and x: "x \<in> set (hdr # map cref As)"
  shows "seek h i sc mem x = Some (last (hdr # map cref As))"
proof -
  let ?P = "\<lambda>c. entry_less (centry c) (mem, sc)"
  from x obtain pre post where sp: "hdr # map cref As = pre @ x # post"
    by (meson split_list)
  have "\<exists>A2. set A2 \<subseteq> set As \<and> (\<exists>p. get_forward h x i = Some p \<and> chain h i p (map cref (A2 @ Bs)) None)
          \<and> last (hdr # map cref As) = last (x # map cref A2)"
  proof (cases pre)
    case Nil
    with sp have "x = hdr" "post = map cref As" by simp_all
    with ch show ?thesis
      by (intro exI [of _ As]) (auto simp: chain_Cons)
  next
    case (Cons y pre')
    with sp have "map cref As = pre' @ x # post" by simp
    then obtain A1 c A2 where As: "As = A1 @ c # A2" "map cref A1 = pre'" "cref c = x" "map cref A2 = post"
      by (auto simp: map_eq_append_conv map_eq_Cons_conv)
    from ch have "chain h i (Some hdr) ((hdr # map cref A1) @ cref c # map cref (A2 @ Bs)) None"
      by (simp add: As)
    then have "\<exists>p. get_forward h x i = Some p \<and> chain h i p (map cref (A2 @ Bs)) None"
      unfolding chain_append by (auto simp: chain_Cons As(3))
    with As show ?thesis
      by (intro exI [of _ A2]) auto
  qed
  then obtain A2 p where A2: "set A2 \<subseteq> set As" "get_forward h x i = Some p"
      "chain h i p (map cref (A2 @ Bs)) None" "last (hdr # map cref As) = last (x # map cref A2)"
    by blast
  have "seek h i sc mem x = Some (last (x # map cref (takeWhile ?P (A2 @ Bs))))"
    by (rule seek_chain [OF A2(2) A2(3)]) (use ag A2(1) in auto)
  moreover have "takeWhile ?P (A2 @ Bs) = A2"
    by (rule takeWhile_split) (use A B A2(1) in auto)
  ultimately show ?thesis using A2(4) by simp
qed

lemma lane_append: "lane i (as @ bs) = lane i as @ lane i bs"
  by (simp add: lane_def)

lemma lane_subset: "set (lane i cs) \<subseteq> set cs"
  by (auto simp: lane_def)

lemma lane_Suc_subset: "set (lane (Suc i) cs) \<subseteq> set (lane i cs)"
  by (auto simp: lane_def)

lemma last_lane_Suc:
  "last (hdr # map cref (lane (Suc l) A)) \<in> set (hdr # map cref (lane l A))"
proof (cases "lane (Suc l) A = []")
  case True
  then show ?thesis by simp
next
  case False
  then have "last (lane (Suc l) A) \<in> set (lane (Suc l) A)" by simp
  with lane_Suc_subset have "last (lane (Suc l) A) \<in> set (lane l A)" by blast
  with False show ?thesis by (simp add: last_map)
qed

lemma descend:
  assumes chains: "\<forall>i < l. chain h i (Some hdr) (hdr # map cref (lane i (A @ B))) None"
    and ag: "\<forall>c \<in> set (A @ B). shape h (cref c) = Some (centry c, cheight c)"
    and A: "\<forall>c \<in> set A. entry_less (centry c) (mem, sc)"
    and B: "\<forall>c \<in> set B. \<not> entry_less (centry c) (mem, sc)"
    and x: "x = last (hdr # map cref (lane l A))"
    and len: "l \<le> length upd"
  shows "\<exists>x' upd'. for_loop (search_step h sc mem) (rev [0..<l]) (x, upd) = Some (x', upd')
           \<and> length upd' = length upd
           \<and> (\<forall>i < l. upd' ! i = Some (last (hdr # map cref (lane i A))))
           \<and> (\<forall>i \<ge> l. upd' ! i = upd ! i)"
  using chains x len
proof (induction l arbitrary: x upd)
  case 0
  then show ?case by simp
next
  case (Suc l)
  let ?x' = "last (hdr # map cref (lane l A))"
  have "chain h l (Some hdr) (hdr # map cref (lane l A @ lane l B)) None"
    using Suc.prems(1) by (simp add: lane_append)
  moreover have "\<forall>c \<in> set (lane l A @ lane l B). shape h (cref c) = Some (centry c, cheight c)"
    using ag lane_subset by fastforce
  moreover have "\<forall>c \<in> set (lane l A). entry_less (centry c) (mem, sc)"
    using A lane_subset by fastforce
  moreover have "\<forall>c \<in> set (lane l B). \<not> entry_less (centry c) (mem, sc)"
    using B lane_subset by fastforce
  moreover have "x \<in> set (hdr # map cref (lane l A))"
    unfolding Suc.prems(2) by (rule last_lane_Suc)
  ultimately have sk: "seek h l sc mem x = Some ?x'"
    by (rule seek_level)
  have step: "search_step h sc mem l (x, upd) = Some (?x', upd[l := Some ?x'])"
    using sk Suc.prems(3) by (simp add: search_step_def)
  have "\<exists>x' upd'. for_loop (search_step h sc mem) (rev [0..<l]) (?x', upd[l := Some ?x'])
            = Some (x', upd')
           \<and> length upd' = length (upd[l := Some ?x'])
           \<and> (\<forall>i < l. upd' ! i = Some (last (hdr # map cref (lane i A))))
           \<and> (\<forall>i \<ge> l. upd' ! i = upd[l := Some ?x'] ! i)"
    by (rule Suc.IH) (use Suc.prems in auto)
  then obtain x' upd' where r: "for_loop (search_step h sc mem) (rev [0..<l]) (?x', upd[l := Some ?x'])
            = Some (x', upd')" "length upd' = length upd"
      "\<forall>i < l. upd' ! i = Some (last (hdr # map cref (lane i A)))"
      "\<forall>i \<ge> l. upd' ! i = upd[l := Some ?x'] ! i"
    by auto
  have "for_loop (search_step h sc mem) (rev [0..<Suc l]) (x, upd) = Some (x', upd')"
    using step r(1) by simp
  moreover have "\<forall>i < Suc l. upd' ! i = Some (last (hdr # map cref (lane i A)))"
    using r(3) r(4) Suc.prems(3) by (auto simp: less_Suc_eq)
  moreover have "\<forall>i \<ge> Suc l. upd' ! i = upd ! i"
    using r(4) by auto
  ultimately show ?case using r(2) by blast
qed

lemma skiplist_lane_top:
  assumes "skiplist ss cs" and "level ss \<le> i"
  shows "lane i cs = []"
  using assms by (auto simp: skiplist_def lane_def filter_empty_conv)

lemma find_update_skiplist:
  assumes sk: "skiplist ss (A @ B)"
    and A: "\<forall>c \<in> set A. entry_less (centry c) (mem, sc)"
    and B: "\<forall>c \<in> set B. \<not> entry_less (centry c) (mem, sc)"
  shows "\<exists>upd. find_update ss sc mem = Some upd \<and> length upd = maxLevel
           \<and> (\<forall>i < level ss. upd ! i = Some (pred_at (header ss) A i))
           \<and> (\<forall>i. level ss \<le> i \<longrightarrow> i < maxLevel \<longrightarrow> upd ! i = None)"
proof -
  let ?h = "nodes ss" and ?hdr = "header ss" and ?l = "level ss"
  from sk have lv: "?l \<le> maxLevel" by (simp add: skiplist_def)
  have "lane ?l (A @ B) = []"
    by (rule skiplist_lane_top [OF sk]) simp
  then have top: "lane ?l A = []" by (simp add: lane_append)
  have "\<exists>x' upd'. for_loop (search_step ?h sc mem) (rev [0..<?l]) (?hdr, replicate maxLevel None)
            = Some (x', upd')
           \<and> length upd' = length (replicate maxLevel (None :: ref option))
           \<and> (\<forall>i < ?l. upd' ! i = Some (last (?hdr # map cref (lane i A))))
           \<and> (\<forall>i \<ge> ?l. upd' ! i = replicate maxLevel None ! i)"
  proof (rule descend [OF _ _ A B])
    show "\<forall>i < ?l. chain ?h i (Some ?hdr) (?hdr # map cref (lane i (A @ B))) None"
      using sk lv by (simp add: skiplist_def)
    show "\<forall>c \<in> set (A @ B). shape ?h (cref c) = Some (centry c, cheight c)"
      using sk by (simp add: skiplist_def)
    show "?hdr = last (?hdr # map cref (lane ?l A))"
      by (simp add: top)
    show "?l \<le> length (replicate maxLevel (None :: ref option))"
      using lv by simp
  qed
  then show ?thesis
    by (auto simp: find_update_def pred_at_def)
qed

lemma randomLevel_loop_bounds:
  "lvl \<le> fst (randomLevel_loop r lvl) \<and> fst (randomLevel_loop r lvl) \<le> max lvl maxLevel"
proof (induction r lvl rule: randomLevel_loop.induct)
  case (1 r lvl)
  show ?case
  proof (cases "r 0 \<and> lvl < maxLevel")
    case True
    with "1.IH" show ?thesis
      by (subst (1 2) randomLevel_loop.simps) auto
  next
    case False
    then show ?thesis
      by (subst (1 2) randomLevel_loop.simps) auto
  qed
qed

lemma randomLevel_bounds: "1 \<le> fst (randomLevel r)" "fst (randomLevel r) \<le> maxLevel"
  using randomLevel_loop_bounds [of 1 r] by (simp_all add: randomLevel_def maxLevel_def)

lemma raise_loop:
  assumes "k \<le> length upd"
  shows "\<exists>upd'. for_loop (raise_step hdr) [l..<k] upd = Some upd' \<and> length upd' = length upd
           \<and> (\<forall>i. upd' ! i = (if l \<le> i \<and> i < k then Some hdr else upd ! i))"
  using assms
proof (induction k)
  case 0
  then show ?case by simp
next
  case (Suc k)
  show ?case
  proof (cases "l \<le> k")
    case False
    then show ?thesis by auto
  next
    case True
    from Suc obtain upd' where u: "for_loop (raise_step hdr) [l..<k] upd = Some upd'"
        "length upd' = length upd" "\<forall>i. upd' ! i = (if l \<le> i \<and> i < k then Some hdr else upd ! i)"
      by auto
    have "for_loop (raise_step hdr) [l..<Suc k] upd = Some (upd'[k := Some hdr])"
      using True u(1) u(2) Suc.prems by (simp add: for_loop_snoc raise_step_def)
    moreover have "\<forall>i. upd'[k := Some hdr] ! i = (if l \<le> i \<and> i < Suc k then Some hdr else upd ! i)"
      using u(2) u(3) Suc.prems True by (auto simp: nth_list_update)
    ultimately show ?thesis using u(2) by auto
  qed
qed

lemma link_loop:
  assumes upd: "\<forall>i < k. upd ! i = Some (u i)" and len: "k \<le> length upd"
    and hu: "\<forall>i < k. i < height h0 (u i)" and hn: "k \<le> height h0 new"
    and ne: "\<forall>i < k. u i \<noteq> new"
  shows "\<exists>h'. for_loop (link_step upd new) [0..<k] h0 = Some h' \<and> shape h' = shape h0
           \<and> (\<forall>r i. get_forward h' r i =
                 (if i < k \<and> r = new then get_forward h0 (u i) i
                  else if i < k \<and> r = u i then Some (Some new)
                  else get_forward h0 r i))"
  using assms
proof (induction k)
  case 0
  then show ?case by simp
next
  case (Suc k)
  from Suc obtain hk where hk: "for_loop (link_step upd new) [0..<k] h0 = Some hk"
      "shape hk = shape h0"
      "\<forall>r i. get_forward hk r i =
                 (if i < k \<and> r = new then get_forward h0 (u i) i
                  else if i < k \<and> r = u i then Some (Some new)
                  else get_forward h0 r i)"
    by auto
  have hts: "height hk = height h0" by (rule shape_height [OF hk(2)])
  have uk: "nth_opt upd k = Some (Some (u k))"
    using Suc.prems(1,2) by (simp add: nth_opt_def)
  have "get_forward hk (u k) k = get_forward h0 (u k) k"
    by (simp add: hk(3))
  moreover obtain p where p: "get_forward h0 (u k) k = Some p"
    using Suc.prems(3) get_forward_defined [of h0 "u k" k] by auto
  ultimately have g: "get_forward hk (u k) k = Some p" by simp
  obtain h1 where h1: "set_forward hk new k p = Some h1"
    using set_forward_defined [of k hk new p] Suc.prems(4) hts by auto
  have hts1: "height h1 = height h0"
    using shape_height [OF set_forward_shape [OF h1]] hts by simp
  obtain h2 where h2: "set_forward h1 (u k) k (Some new) = Some h2"
    using set_forward_defined [of k h1 "u k" "Some new"] Suc.prems(3) hts1 by auto
  have step: "link_step upd new k hk = Some h2"
    by (simp add: link_step_def uk g h1 h2)
  have "for_loop (link_step upd new) [0..<Suc k] h0 = Some h2"
    by (simp add: for_loop_snoc hk(1) step)
  moreover have "shape h2 = shape h0"
    using set_forward_shape [OF h2] set_forward_shape [OF h1] hk(2) by simp
  moreover have "\<forall>r i. get_forward h2 r i =
                 (if i < Suc k \<and> r = new then get_forward h0 (u i) i
                  else if i < Suc k \<and> r = u i then Some (Some new)
                  else get_forward h0 r i)"
    using Suc.prems(5) p
    by (auto simp: set_forward_get [OF h2] set_forward_get [OF h1] hk(3) less_Suc_eq)
  ultimately show ?case by blast
qed

lemma unlink_loop:
  assumes upd: "\<forall>i < k. upd ! i = Some (u i)" and len: "k \<le> length upd"
    and hu: "\<forall>i < k. i < height h (u i)"
    and hn: "\<forall>i < k. get_forward h (u i) i = Some (Some node) \<longrightarrow> i < height h node"
  shows "\<exists>h'. for_loop (unlink_step upd node) [0..<k] h = Some h' \<and> shape h' = shape h
           \<and> (\<forall>r i. get_forward h' r i =
                 (if i < k \<and> r = u i \<and> get_forward h r i = Some (Some node)
                  then get_forward h node i
                  else get_forward h r i))"
  using assms
proof (induction k)
  case 0
  then show ?case by simp
next
  case (Suc k)
  from Suc obtain hk where hk: "for_loop (unlink_step upd node) [0..<k] h = Some hk"
      "shape hk = shape h"
      "\<forall>r i. get_forward hk r i =
                 (if i < k \<and> r = u i \<and> get_forward h r i = Some (Some node)
                  then get_forward h node i
                  else get_forward h r i)"
    by auto
  have hts: "height hk = height h" by (rule shape_height [OF hk(2)])
  have uk: "nth_opt upd k = Some (Some (u k))"
    using Suc.prems(1,2) by (simp add: nth_opt_def)
  have g: "get_forward hk (u k) k = get_forward h (u k) k"
    by (simp add: hk(3))
  obtain p where p: "get_forward h (u k) k = Some p"
    using Suc.prems(3) get_forward_defined [of h "u k" k] by auto
  show ?case
  proof (cases "p = Some node")
    case True
    then have "k < height h node" using Suc.prems(4) p by auto
    then obtain q where q: "get_forward h node k = Some q"
      using get_forward_defined [of h node k] by auto
    have gq: "get_forward hk node k = Some q"
      by (simp add: hk(3) q)
    obtain h1 where h1: "set_forward hk (u k) k q = Some h1"
      using set_forward_defined [of k hk "u k" q] Suc.prems(3) hts by auto
    have step: "unlink_step upd node k hk = Some h1"
      by (simp add: unlink_step_def uk g p True gq h1)
    have "for_loop (unlink_step upd node) [0..<Suc k] h = Some h1"
      by (simp add: for_loop_snoc hk(1) step)
    moreover have "shape h1 = shape h"
      using set_forward_shape [OF h1] hk(2) by simp
    moreover have "\<forall>r i. get_forward h1 r i =
                 (if i < Suc k \<and> r = u i \<and> get_forward h r i = Some (Some node)
                  then get_forward h node i
                  else get_forward h r i)"
      using p q True
      by (auto simp: set_forward_get [OF h1] hk(3) less_Suc_eq)
    ultimately show ?thesis by blast
  next
    case False
    have step: "unlink_step upd node k hk = Some hk"
      using False by (simp add: unlink_step_def uk g p)
    have "for_loop (unlink_step upd node) [0..<Suc k] h = Some hk"
      by (simp add: for_loop_snoc hk(1) step)
    moreover have "\<forall>r i. get_forward hk r i =
                 (if i < Suc k \<and> r = u i \<and> get_forward h r i = Some (Some node)
                  then get_forward h node i
                  else get_forward h r i)"
      using p False
      by (auto simp: hk(3) less_Suc_eq)
    ultimately show ?thesis using hk(2) by blast
  qed
qed

subsection \<open>Splitting the cells at a key\<close>

lemma sorted_dropWhile_none:
  assumes "sorted_wrt entry_less (map centry cs)"
  shows "\<forall>b \<in> set (dropWhile (\<lambda>c. entry_less (centry c) k) cs). \<not> entry_less (centry b) k"
proof (cases "dropWhile (\<lambda>c. entry_less (centry c) k) cs")
  case Nil
  show ?thesis unfolding Nil by simp
next
  case (Cons b0 rest)
  let ?P = "\<lambda>c. entry_less (centry c) k"
  have b0: "\<not> ?P b0"
    using hd_dropWhile [of ?P cs] Cons by auto
  from assms have "sorted_wrt entry_less (map centry (takeWhile ?P cs @ dropWhile ?P cs))"
    by simp
  then have "sorted_wrt entry_less (map centry (takeWhile ?P cs @ b0 # rest))"
    unfolding Cons .
  then have later: "\<forall>b \<in> set rest. entry_less (centry b0) (centry b)"
    by (simp add: sorted_wrt_append)
  have "\<not> ?P b" if "b \<in> set rest" for b
  proof
    assume "?P b"
    moreover from later that have "entry_less (centry b0) (centry b)" by simp
    ultimately have "?P b0" by (rule entry_less_trans [rotated])
    with b0 show False by simp
  qed
  with b0 show ?thesis unfolding Cons by simp
qed

subsection \<open>Linking and unlinking on one level\<close>

lemma snoc_view:
  obtains pre u where "hdr # as = pre @ [u]" and "last (hdr # as) = u"
  by (metis append_butlast_last_id last_snoc list.distinct(1))

lemma chain_insert:
  assumes old: "chain h i (Some hdr) (hdr # as @ bs) None"
    and dist: "distinct (hdr # as @ bs)" and fresh: "new \<notin> set (hdr # as @ bs)"
    and gn: "get_forward h' new i = get_forward h (last (hdr # as)) i"
    and gu: "get_forward h' (last (hdr # as)) i = Some (Some new)"
    and rest: "\<And>r. r \<noteq> new \<Longrightarrow> r \<noteq> last (hdr # as) \<Longrightarrow> get_forward h' r i = get_forward h r i"
  shows "chain h' i (Some hdr) (hdr # as @ new # bs) None"
proof -
  obtain pre u where sp: "hdr # as = pre @ [u]" and ul: "last (hdr # as) = u"
    by (rule snoc_view)
  have e1: "hdr # as @ bs = pre @ u # bs"
    using sp by (metis append_Cons append_assoc append_Nil)
  have e2: "hdr # as @ new # bs = pre @ u # new # bs"
    using sp by (metis append_Cons append_assoc append_Nil)
  from old obtain p where c1: "chain h i (Some hdr) pre (Some u)"
      and p: "get_forward h u i = Some p" and c2: "chain h i p bs None"
    unfolding e1 chain_append by (auto simp: chain_Cons)
  have d: "distinct (pre @ u # bs)" and nf: "new \<notin> set (pre @ u # bs)"
    using dist fresh unfolding e1 by simp_all
  have "chain h' i (Some hdr) pre (Some u) = chain h i (Some hdr) pre (Some u)"
    by (rule chain_frame, rule rest [unfolded ul]) (use d nf in auto)
  moreover have "chain h' i p bs None = chain h i p bs None"
    by (rule chain_frame, rule rest [unfolded ul]) (use d nf in auto)
  ultimately show ?thesis
    unfolding e2 chain_append using c1 c2 p gn [unfolded ul] gu [unfolded ul]
    by (auto simp: chain_Cons)
qed

lemma chain_delete:
  assumes old: "chain h i (Some hdr) (hdr # as @ r # bs) None"
    and dist: "distinct (hdr # as @ r # bs)"
    and gu: "get_forward h' (last (hdr # as)) i = get_forward h r i"
    and rest: "\<And>x. x \<noteq> last (hdr # as) \<Longrightarrow> get_forward h' x i = get_forward h x i"
  shows "chain h' i (Some hdr) (hdr # as @ bs) None"
proof -
  obtain pre u where sp: "hdr # as = pre @ [u]" and ul: "last (hdr # as) = u"
    by (rule snoc_view)
  have e1: "hdr # as @ r # bs = pre @ u # r # bs"
    using sp by (metis append_Cons append_assoc append_Nil)
  have e2: "hdr # as @ bs = pre @ u # bs"
    using sp by (metis append_Cons append_assoc append_Nil)
  from old obtain p where c1: "chain h i (Some hdr) pre (Some u)"
      and p: "get_forward h r i = Some p" and c2: "chain h i p bs None"
    unfolding e1 chain_append by (auto simp: chain_Cons)
  have d: "distinct (pre @ u # r # bs)"
    using dist unfolding e1 by simp
  have "chain h' i (Some hdr) pre (Some u) = chain h i (Some hdr) pre (Some u)"
    by (rule chain_frame, rule rest [unfolded ul]) (use d in auto)
  moreover have "chain h' i p bs None = chain h i p bs None"
    by (rule chain_frame, rule rest [unfolded ul]) (use d in auto)
  ultimately show ?thesis
    unfolding e2 chain_append using c1 c2 p gu [unfolded ul]
    by (auto simp: chain_Cons)
qed

lemma chain_next:
  assumes "chain h i (Some hdr) (hdr # as @ bs) None"
  shows "get_forward h (last (hdr # as)) i = Some (case bs of [] \<Rightarrow> None | b # _ \<Rightarrow> Some b)"
proof -
  obtain pre u where sp: "hdr # as = pre @ [u]" and ul: "last (hdr # as) = u"
    by (rule snoc_view)
  have e1: "hdr # as @ bs = pre @ u # bs"
    using sp by (metis append_Cons append_assoc append_Nil)
  from assms obtain p where p: "get_forward h u i = Some p" and c2: "chain h i p bs None"
    unfolding e1 chain_append by (auto simp: chain_Cons)
  from c2 have "p = (case bs of [] \<Rightarrow> None | b # _ \<Rightarrow> Some b)"
    by (cases bs) (auto simp: chain_Cons)
  with p show ?thesis unfolding ul by simp
qed

subsection \<open>Facts of a well-formed skip list\<close>

lemma skiplistD:
  assumes "skiplist ss cs"
  shows "height (nodes ss) (header ss) = maxLevel"
    and "header ss \<notin> set (map cref cs)"
    and "distinct (map cref cs)"
    and "1 \<le> level ss" and "level ss \<le> maxLevel"
    and "\<And>c. c \<in> set cs \<Longrightarrow> shape (nodes ss) (cref c) = Some (centry c, cheight c)"
    and "\<And>c. c \<in> set cs \<Longrightarrow> 1 \<le> cheight c"
    and "\<And>c. c \<in> set cs \<Longrightarrow> cheight c \<le> level ss"
    and "\<And>c. c \<in> set cs \<Longrightarrow> snd (centry c) \<noteq> NaN"
    and "\<And>i. i < maxLevel \<Longrightarrow>
           chain (nodes ss) i (Some (header ss)) (header ss # map cref (lane i cs)) None"
    and "sorted_wrt entry_less (map centry cs)"
    and "distinct (map (fst \<circ> centry) cs)"
    and "\<And>m r. dict_get (dict ss) m = Some r \<longleftrightarrow> (\<exists>c \<in> set cs. cref c = r \<and> fst (centry c) = m)"
    and "length_ss ss = int (length cs)"
    and "header ss < nextNode ss"
    and "\<And>c. c \<in> set cs \<Longrightarrow> cref c < nextNode ss"
    and "\<And>c. c \<in> set cs \<Longrightarrow> fst (centry c) \<noteq> NaN"
    and "distinct (map fst (dict ss))"
    and "set (map fst (dict ss)) = set (map (fst \<circ> centry) cs)"
  using assms unfolding skiplist_def by blast+

lemma pred_at_cases:
  "pred_at hdr A i = hdr \<or> (\<exists>c \<in> set (lane i A). pred_at hdr A i = cref c)"
proof (cases "lane i A = []")
  case True
  then show ?thesis by (simp add: pred_at_def)
next
  case False
  then have "last (lane i A) \<in> set (lane i A)" by simp
  with False show ?thesis by (auto simp: pred_at_def last_map)
qed

lemma pred_at_facts:
  assumes sk: "skiplist ss (A @ B)" and i: "i < maxLevel"
  shows "pred_at (header ss) A i < nextNode ss"
    and "i < height (nodes ss) (pred_at (header ss) A i)"
proof -
  note d = skiplistD [OF sk]
  from pred_at_cases [of "header ss" A i]
  have "pred_at (header ss) A i < nextNode ss \<and> i < height (nodes ss) (pred_at (header ss) A i)"
  proof
    assume "pred_at (header ss) A i = header ss"
    with d(1) d(15) i show ?thesis by simp
  next
    assume "\<exists>c \<in> set (lane i A). pred_at (header ss) A i = cref c"
    then obtain c where c: "c \<in> set A" "i < cheight c" "pred_at (header ss) A i = cref c"
      by (auto simp: lane_def)
    then have "c \<in> set (A @ B)" by simp
    from d(6) [OF this] d(16) [OF this] c show ?thesis
      by (simp add: height_def case_prod_beta)
  qed
  then show "pred_at (header ss) A i < nextNode ss"
    and "i < height (nodes ss) (pred_at (header ss) A i)" by simp_all
qed

lemma pred_at_top:
  assumes sk: "skiplist ss (A @ B)" and i: "level ss \<le> i"
  shows "pred_at (header ss) A i = header ss"
proof -
  have "lane i (A @ B) = []" by (rule skiplist_lane_top [OF sk i])
  then show ?thesis by (simp add: lane_append pred_at_def)
qed

lemma insertNode_run:
  assumes sk: "skiplist ss (A @ B)"
    and A: "\<forall>c \<in> set A. entry_less (centry c) (mem, sc)"
    and B: "\<forall>c \<in> set B. \<not> entry_less (centry c) (mem, sc)"
    and lvl: "lvl = fst (randomLevel (rnd ss))"
    and new: "new = nextNode ss"
  shows "\<exists>h'. insertNode ss sc mem
           = Some (ss\<lparr>nodes := h', nextNode := Suc new, dict := dict_put (dict ss) mem new,
                     level := (if lvl > level ss then lvl else level ss),
                     length_ss := length_ss ss + 1, rnd := snd (randomLevel (rnd ss))\<rparr>)
         \<and> shape h' = (shape (nodes ss))(new \<mapsto> ((mem, sc), lvl))
         \<and> (\<forall>r i. get_forward h' r i =
               (if i < lvl \<and> r = new then get_forward (nodes ss) (pred_at (header ss) A i) i
                else if i < lvl \<and> r = pred_at (header ss) A i then Some (Some new)
                else if r = new then None
                else get_forward (nodes ss) r i))"
proof -
  let ?h = "nodes ss" and ?hdr = "header ss" and ?L = "level ss"
  let ?u = "pred_at ?hdr A"
  let ?hnew = "?h(new \<mapsto> newSkipListNode lvl sc mem)"
  note d = skiplistD [OF sk]
  have lv: "1 \<le> lvl" "lvl \<le> maxLevel"
    unfolding lvl by (rule randomLevel_bounds)+
  from find_update_skiplist [OF sk A B] obtain upd0
    where u0: "find_update ss sc mem = Some upd0" "length upd0 = maxLevel"
      "\<forall>i < ?L. upd0 ! i = Some (?u i)"
    by blast
  have "\<exists>upd. (if lvl > ?L then for_loop (raise_step ?hdr) [?L..<lvl] upd0 else Some upd0) = Some upd
          \<and> length upd = maxLevel \<and> (\<forall>i < lvl. upd ! i = Some (?u i))"
  proof (cases "lvl > ?L")
    case False
    with u0 show ?thesis by auto
  next
    case True
    from raise_loop [of lvl upd0 ?hdr ?L] lv u0(2) obtain upd
      where r: "for_loop (raise_step ?hdr) [?L..<lvl] upd0 = Some upd" "length upd = length upd0"
        "\<forall>i. upd ! i = (if ?L \<le> i \<and> i < lvl then Some ?hdr else upd0 ! i)"
      by auto
    have "upd ! i = Some (?u i)" if "i < lvl" for i
    proof (cases "i < ?L")
      case True
      with r(3) u0(3) show ?thesis by simp
    next
      case False
      with pred_at_top [OF sk, of i] r(3) that show ?thesis by simp
    qed
    with True r u0(2) show ?thesis by simp
  qed
  then obtain upd where upd: "(if lvl > ?L then for_loop (raise_step ?hdr) [?L..<lvl] upd0
        else Some upd0) = Some upd" "length upd = maxLevel" "\<forall>i < lvl. upd ! i = Some (?u i)"
    by blast
  have une: "?u i \<noteq> new" and uh: "i < height ?h (?u i)" if "i < lvl" for i
    using pred_at_facts [OF sk, of i] that lv unfolding new by simp_all
  have sh0: "shape ?hnew = (shape ?h)(new \<mapsto> ((mem, sc), lvl))"
    by (rule ext) (simp add: shape_def newSkipListNode_def)
  have g0: "get_forward ?hnew r i = (if r = new then (if i < lvl then Some None else None)
                                   else get_forward ?h r i)" for r i
    by (simp add: get_forward_def newSkipListNode_def nth_opt_def)
  have ht0: "height ?hnew r = (if r = new then lvl else height ?h r)" for r
    by (simp add: height_def sh0 shape_def)
  have hu: "\<forall>i < lvl. i < height ?hnew (?u i)"
    using une uh by (simp add: ht0)
  have hn: "lvl \<le> height ?hnew new"
    by (simp add: ht0)
  have ne: "\<forall>i < lvl. ?u i \<noteq> new"
    using une by simp
  have len: "lvl \<le> length upd"
    using upd(2) lv by simp
  from link_loop [OF upd(3) len hu hn ne]
  obtain h' where h': "for_loop (link_step upd new) [0..<lvl] ?hnew = Some h'"
      "shape h' = shape ?hnew"
      "\<forall>r i. get_forward h' r i =
                 (if i < lvl \<and> r = new then get_forward ?hnew (?u i) i
                  else if i < lvl \<and> r = ?u i then Some (Some new)
                  else get_forward ?hnew r i)"
    by blast
  have run: "insertNode ss sc mem
           = Some (ss\<lparr>nodes := h', nextNode := Suc new, dict := dict_put (dict ss) mem new,
                     level := (if lvl > level ss then lvl else level ss),
                     length_ss := length_ss ss + 1, rnd := snd (randomLevel (rnd ss))\<rparr>)"
    using upd(1) h'(1)
    by (cases "lvl > level ss")
       (simp_all add: insertNode_def u0(1) lvl [symmetric] new [symmetric] case_prod_beta Let_def)
  have gf: "\<forall>r i. get_forward h' r i =
               (if i < lvl \<and> r = new then get_forward ?h (?u i) i
                else if i < lvl \<and> r = ?u i then Some (Some new)
                else if r = new then None
                else get_forward ?h r i)"
  proof (intro allI)
    fix r i
    show "get_forward h' r i =
               (if i < lvl \<and> r = new then get_forward ?h (?u i) i
                else if i < lvl \<and> r = ?u i then Some (Some new)
                else if r = new then None
                else get_forward ?h r i)"
      using une [of i] by (simp add: h'(3) g0)
  qed
  have sh: "shape h' = (shape ?h)(new \<mapsto> ((mem, sc), lvl))"
    using h'(2) sh0 by simp
  show ?thesis
    by (intro exI [of _ h'] conjI run sh gf)
qed

lemma lane_Cons: "lane i (c # cs) = (if i < cheight c then c # lane i cs else lane i cs)"
  by (simp add: lane_def)

lemma distinct_lane: "distinct (map cref cs) \<Longrightarrow> distinct (map cref (lane i cs))"
  by (simp add: lane_def distinct_map_filter)

lemma insertNode_skiplist:
  assumes sk: "skiplist ss cs" and absent: "dict_get (dict ss) mem = None" and num: "sc \<noteq> NaN"
    and numm: "mem \<noteq> NaN"
    and A: "A = takeWhile (\<lambda>c. entry_less (centry c) (mem, sc)) cs"
    and B: "B = dropWhile (\<lambda>c. entry_less (centry c) (mem, sc)) cs"
    and lvl: "lvl = fst (randomLevel (rnd ss))"
    and new: "new = nextNode ss"
  shows "\<exists>ss'. insertNode ss sc mem = Some ss'
           \<and> skiplist ss' (A @ (new, (mem, sc), lvl) # B)
           \<and> dict ss' = dict_put (dict ss) mem new
           \<and> nextNode ss' = Suc new
           \<and> header ss' = header ss
           \<and> rnd ss' = snd (randomLevel (rnd ss))
           \<and> shape (nodes ss') = (shape (nodes ss))(new \<mapsto> ((mem, sc), lvl))"
proof -
  let ?P = "\<lambda>c. entry_less (centry c) (mem, sc)"
  let ?h = "nodes ss" and ?hdr = "header ss" and ?L = "level ss"
  let ?nc = "(new, (mem, sc), lvl)"
  let ?cs' = "A @ ?nc # B"
  have cs: "cs = A @ B" by (simp add: A B)
  have Ap: "\<forall>c \<in> set A. ?P c"
    unfolding A by (auto dest: set_takeWhileD)
  have Bp: "\<forall>c \<in> set B. \<not> ?P c"
    unfolding B by (rule sorted_dropWhile_none) (rule skiplistD(11) [OF sk])
  note skAB = sk [unfolded cs]
  note d = skiplistD [OF skAB]
  from insertNode_run [OF skAB Ap Bp lvl new] obtain h'
    where run: "insertNode ss sc mem
           = Some (ss\<lparr>nodes := h', nextNode := Suc new, dict := dict_put (dict ss) mem new,
                     level := (if lvl > level ss then lvl else level ss),
                     length_ss := length_ss ss + 1, rnd := snd (randomLevel (rnd ss))\<rparr>)"
      and sh: "shape h' = (shape ?h)(new \<mapsto> ((mem, sc), lvl))"
      and gf: "\<forall>r i. get_forward h' r i =
               (if i < lvl \<and> r = new then get_forward ?h (pred_at ?hdr A i) i
                else if i < lvl \<and> r = pred_at ?hdr A i then Some (Some new)
                else if r = new then None
                else get_forward ?h r i)"
    by blast
  let ?ss' = "ss\<lparr>nodes := h', nextNode := Suc new, dict := dict_put (dict ss) mem new,
                     level := (if lvl > level ss then lvl else level ss),
                     length_ss := length_ss ss + 1, rnd := snd (randomLevel (rnd ss))\<rparr>"
  have lv: "1 \<le> lvl" "lvl \<le> maxLevel"
    unfolding lvl by (rule randomLevel_bounds)+
  have hn: "?hdr \<noteq> new" using d(15) new by simp
  have cn: "cref c \<noteq> new" if "c \<in> set (A @ B)" for c
    using d(16) [OF that] new by simp
  have memfresh: "fst (centry c) \<noteq> mem" if "c \<in> set (A @ B)" for c
    using d(13) [of mem "cref c"] absent that by auto
  have f1: "height h' ?hdr = maxLevel"
    using d(1) hn by (simp add: height_def sh)
  have f2: "?hdr \<notin> set (map cref ?cs')"
    using d(2) hn by auto
  have f3: "distinct (map cref ?cs')"
    using d(3) cn by auto
  have f5: "shape h' (cref c) = Some (centry c, cheight c) \<and> 1 \<le> cheight c
      \<and> cheight c \<le> (if lvl > ?L then lvl else ?L) \<and> snd (centry c) \<noteq> NaN"
    if "c \<in> set ?cs'" for c
  proof (cases "c = ?nc")
    case True
    then show ?thesis using lv num by (simp add: sh)
  next
    case False
    with that have c: "c \<in> set (A @ B)" by auto
    from d(6) [OF c] d(7) [OF c] d(8) [OF c] d(9) [OF c] cn [OF c]
    show ?thesis by (simp add: sh)
  qed
  have f6: "chain h' i (Some ?hdr) (?hdr # map cref (lane i ?cs')) None" if i: "i < maxLevel" for i
  proof (cases "i < lvl")
    case True
    have old: "chain ?h i (Some ?hdr) (?hdr # map cref (lane i A) @ map cref (lane i B)) None"
      using d(10) [OF i] by (simp add: lane_append)
    have dist: "distinct (?hdr # map cref (lane i A) @ map cref (lane i B))"
      using distinct_lane [OF d(3), of i] d(2) lane_subset [of i "A @ B"]
      by (auto simp: lane_append)
    have fresh: "new \<notin> set (?hdr # map cref (lane i A) @ map cref (lane i B))"
      using hn cn lane_subset [of i A] lane_subset [of i B] by fastforce
    have pe: "last (?hdr # map cref (lane i A)) = pred_at ?hdr A i"
      by (simp add: pred_at_def)
    have pn: "pred_at ?hdr A i \<noteq> new"
      using pred_at_facts(1) [OF skAB i] new by simp
    have "chain h' i (Some ?hdr) (?hdr # map cref (lane i A) @ new # map cref (lane i B)) None"
    proof (rule chain_insert [OF old dist fresh])
      show "get_forward h' new i = get_forward ?h (last (?hdr # map cref (lane i A))) i"
        unfolding pe using True by (simp add: gf)
      show "get_forward h' (last (?hdr # map cref (lane i A))) i = Some (Some new)"
        unfolding pe using True pn by (simp add: gf)
      show "get_forward h' r i = get_forward ?h r i"
        if "r \<noteq> new" "r \<noteq> last (?hdr # map cref (lane i A))" for r
        using that unfolding pe by (simp add: gf)
    qed
    then show ?thesis using True by (simp add: lane_append lane_Cons)
  next
    case False
    have "chain h' i (Some ?hdr) (?hdr # map cref (lane i (A @ B))) None
        = chain ?h i (Some ?hdr) (?hdr # map cref (lane i (A @ B))) None"
    proof (rule chain_frame)
      fix r assume "r \<in> set (?hdr # map cref (lane i (A @ B)))"
      then have "r \<noteq> new" using hn cn lane_subset [of i "A @ B"] by fastforce
      with False show "get_forward h' r i = get_forward ?h r i" by (simp add: gf)
    qed
    with d(10) [OF i] False show ?thesis by (simp add: lane_append lane_Cons)
  qed
  have f7: "sorted_wrt entry_less (map centry ?cs')"
  proof -
    have "entry_less (mem, sc) (centry b)" if "b \<in> set B" for b
    proof (rule entry_less_members)
      from that have b: "b \<in> set (A @ B)" by simp
      show "entry_num (centry b)" using d(9) [OF b] d(17) [OF b] by (simp add: entry_num_def)
      show "entry_num (mem, sc)" using num numm by (simp add: entry_num_def)
      show "fst (centry b) \<noteq> fst (mem, sc)" using memfresh [OF b] by simp
      show "\<not> entry_less (centry b) (mem, sc)" using Bp that by simp
    qed
    with d(11) Ap show ?thesis
      by (auto simp: sorted_wrt_append)
  qed
  have f8: "distinct (map (fst \<circ> centry) ?cs')"
    using d(12) memfresh by auto
  have f9: "dict_get (dict_put (dict ss) mem new) m = Some r
      \<longleftrightarrow> (\<exists>c \<in> set ?cs'. cref c = r \<and> fst (centry c) = m)" for m r
  proof (cases "m = mem")
    case True
    with memfresh show ?thesis by (auto simp: dict_get_put [OF numm])
  next
    case False
    with d(13) [of m r] show ?thesis by (auto simp: dict_get_put [OF numm])
  qed
  have f10: "length_ss ss + 1 = int (length ?cs')"
    using d(14) by simp
  have f12: "cref c < Suc new" if "c \<in> set ?cs'" for c
  proof (cases "c = ?nc")
    case True
    then show ?thesis by simp
  next
    case False
    with that have "c \<in> set (A @ B)" by auto
    from d(16) [OF this] new show ?thesis by simp
  qed
  have f13: "fst (centry c) \<noteq> NaN" if "c \<in> set ?cs'" for c
  proof (cases "c = ?nc")
    case True
    then show ?thesis using numm by simp
  next
    case False
    with that have "c \<in> set (A @ B)" by auto
    from d(17) [OF this] show ?thesis .
  qed
  have f14: "distinct (map fst (dict_put (dict ss) mem new))"
    by (rule distinct_keys_put [OF numm d(18)])
  have f15: "set (map fst (dict_put (dict ss) mem new)) = set (map (fst \<circ> centry) ?cs')"
    unfolding keys_put [OF numm] d(19) by auto
  have "skiplist ?ss' ?cs'"
    unfolding skiplist_def
    using f1 f2 f3 d(4) d(5) lv f5 f6 f7 f8 f9 f10 d(15) f12 f13 f14 f15 new
    by (simp del: map_append set_append)
  with run sh show ?thesis by simp
qed

lemma shrink_level_spec:
  assumes "\<forall>i < L. chain h i (Some hdr) (hdr # map cref (lane i cs)) None"
    and "1 \<le> L" and "\<forall>c \<in> set cs. cheight c \<le> L"
  shows "\<exists>l'. shrink_level h hdr L = Some l' \<and> 1 \<le> l' \<and> l' \<le> L \<and> (\<forall>c \<in> set cs. cheight c \<le> l')"
  using assms
proof (induction L)
  case 0
  then show ?case by simp
next
  case (Suc l)
  show ?case
  proof (cases "l = 0")
    case True
    with Suc.prems show ?thesis by simp
  next
    case False
    from Suc.prems(1) have "chain h l (Some hdr) (hdr # [] @ map cref (lane l cs)) None"
      by simp
    from chain_next [OF this]
    have g: "get_forward h hdr l = Some (case map cref (lane l cs) of [] \<Rightarrow> None | b # _ \<Rightarrow> Some b)"
      by simp
    show ?thesis
    proof (cases "lane l cs")
      case Nil
      then have "\<forall>c \<in> set cs. cheight c \<le> l"
        by (auto simp: lane_def filter_empty_conv)
      with Suc.IH Suc.prems(1) False
      obtain l' where "shrink_level h hdr l = Some l'" "1 \<le> l'" "l' \<le> l" "\<forall>c \<in> set cs. cheight c \<le> l'"
        by auto
      with g Nil False show ?thesis by simp
    next
      case (Cons b bs)
      with g False Suc.prems show ?thesis by simp
    qed
  qed
qed

lemma deleteNode_skiplist:
  assumes sk: "skiplist ss (A @ c # B)"
  shows "\<exists>ss'. deleteNode ss (cref c) = Some ss'
           \<and> skiplist ss' (A @ B)
           \<and> dict ss' = dict_delete (dict ss) (fst (centry c))
           \<and> nextNode ss' = nextNode ss
           \<and> header ss' = header ss
           \<and> rnd ss' = rnd ss
           \<and> shape (nodes ss') = shape (nodes ss)"
proof -
  let ?h = "nodes ss" and ?hdr = "header ss" and ?L = "level ss"
  let ?node = "cref c"
  let ?u = "pred_at ?hdr A"
  note d = skiplistD [OF sk]
  have cin: "c \<in> set (A @ c # B)" by simp
  have numc: "fst (centry c) \<noteq> NaN" by (rule d(17) [OF cin])
  have shc: "shape ?h ?node = Some (centry c, cheight c)" by (rule d(6) [OF cin])
  then obtain n where n: "?h ?node = Some n" "member n = fst (centry c)" "score n = snd (centry c)"
    using shape_node [of ?h ?node "centry c" "cheight c"] by auto
  have htc: "height ?h ?node = cheight c"
    by (rule shape_Some_height [OF shc])
  have srt: "sorted_wrt entry_less (map centry A @ centry c # map centry B)"
    using d(11) by simp
  have Ap: "\<forall>x \<in> set A. entry_less (centry x) (fst (centry c), snd (centry c))"
    using srt by (auto simp: sorted_wrt_append)
  have cB: "\<forall>x \<in> set B. entry_less (centry c) (centry x)"
    using srt by (simp add: sorted_wrt_append)
  have Bp: "\<forall>x \<in> set (c # B). \<not> entry_less (centry x) (fst (centry c), snd (centry c))"
  proof
    fix x assume "x \<in> set (c # B)"
    then consider "x = c" | "x \<in> set B" by auto
    then show "\<not> entry_less (centry x) (fst (centry c), snd (centry c))"
    proof cases
      case 1
      then show ?thesis using entry_less_irrefl [of "centry c"] by simp
    next
      case 2
      with cB have "entry_less (centry c) (centry x)" by simp
      from entry_less_asym [OF this] show ?thesis by simp
    qed
  qed
  from find_update_skiplist [OF sk Ap Bp] obtain upd
    where u0: "find_update ss (snd (centry c)) (fst (centry c)) = Some upd" "length upd = maxLevel"
      "\<forall>i < ?L. upd ! i = Some (?u i)"
    by blast
  have nxt: "get_forward ?h (?u i) i = Some (Some ?node) \<longleftrightarrow> i < cheight c" if i: "i < maxLevel" for i
  proof -
    have "chain ?h i (Some ?hdr) (?hdr # map cref (lane i A) @ map cref (lane i (c # B))) None"
      using d(10) [OF i] by (simp add: lane_append)
    from chain_next [OF this]
    have g: "get_forward ?h (?u i) i
        = Some (case map cref (lane i (c # B)) of [] \<Rightarrow> None | b # _ \<Rightarrow> Some b)"
      by (simp add: pred_at_def)
    show ?thesis
    proof (cases "i < cheight c")
      case True
      with g show ?thesis by (simp add: lane_Cons)
    next
      case False
      have "b \<noteq> ?node" if "b \<in> set (map cref (lane i B))" for b
        using that d(3) lane_subset [of i B] by force
      with g False show ?thesis
        by (cases "lane i B") (auto simp: lane_Cons)
    qed
  qed
  have hu: "\<forall>i < ?L. i < height ?h (?u i)"
    using pred_at_facts(2) [OF sk] d(5) by simp
  have hn: "\<forall>i < ?L. get_forward ?h (?u i) i = Some (Some ?node) \<longrightarrow> i < height ?h ?node"
    using nxt d(5) htc by simp
  have len: "?L \<le> length upd" using u0(2) d(5) by simp
  from unlink_loop [OF u0(3) len hu hn]
  obtain h' where h': "for_loop (unlink_step upd ?node) [0..<?L] ?h = Some h'"
      "shape h' = shape ?h"
      "\<forall>r i. get_forward h' r i =
                 (if i < ?L \<and> r = ?u i \<and> get_forward ?h r i = Some (Some ?node)
                  then get_forward ?h ?node i
                  else get_forward ?h r i)"
    by blast
  have gf: "get_forward h' r i = (if r = ?u i \<and> i < cheight c then get_forward ?h ?node i
                                  else get_forward ?h r i)" if "i < maxLevel" for r i
    using nxt [OF that] d(8) [OF cin] by (auto simp: h'(3))
  have chains: "chain h' i (Some ?hdr) (?hdr # map cref (lane i (A @ B))) None"
    if i: "i < maxLevel" for i
  proof (cases "i < cheight c")
    case True
    have old: "chain ?h i (Some ?hdr) (?hdr # map cref (lane i A) @ ?node # map cref (lane i B)) None"
      using d(10) [OF i] True by (simp add: lane_append lane_Cons)
    have dist: "distinct (?hdr # map cref (lane i A) @ ?node # map cref (lane i B))"
      using distinct_lane [OF d(3), of i] d(2) lane_subset [of i "A @ c # B"] True
      by (auto simp: lane_append lane_Cons)
    have pe: "last (?hdr # map cref (lane i A)) = ?u i"
      by (simp add: pred_at_def)
    have "chain h' i (Some ?hdr) (?hdr # map cref (lane i A) @ map cref (lane i B)) None"
    proof (rule chain_delete [OF old dist])
      show "get_forward h' (last (?hdr # map cref (lane i A))) i = get_forward ?h ?node i"
        unfolding pe using True by (simp add: gf [OF i])
      show "get_forward h' x i = get_forward ?h x i"
        if "x \<noteq> last (?hdr # map cref (lane i A))" for x
        using that unfolding pe by (simp add: gf [OF i])
    qed
    then show ?thesis by (simp add: lane_append)
  next
    case False
    have "chain h' i (Some ?hdr) (?hdr # map cref (lane i (A @ B))) None
        = chain ?h i (Some ?hdr) (?hdr # map cref (lane i (A @ B))) None"
      by (rule chain_frame) (use False in \<open>simp add: gf [OF i]\<close>)
    with d(10) [OF i] False show ?thesis by (simp add: lane_append lane_Cons)
  qed
  have hts: "\<forall>x \<in> set (A @ B). cheight x \<le> ?L"
    using d(8) by simp
  from shrink_level_spec [of ?L h' ?hdr "A @ B"] chains d(4) d(5) hts
  obtain l' where l': "shrink_level h' ?hdr ?L = Some l'" "1 \<le> l'" "l' \<le> ?L"
      "\<forall>x \<in> set (A @ B). cheight x \<le> l'"
    by auto
  let ?ss' = "ss\<lparr>nodes := h', level := l', dict := dict_delete (dict ss) (fst (centry c)),
                   length_ss := length_ss ss - 1\<rparr>"
  have run: "deleteNode ss ?node = Some ?ss'"
    by (simp add: deleteNode_def n u0(1) h'(1) l'(1))
  have f1: "height h' ?hdr = maxLevel"
    using d(1) by (simp add: height_def h'(2))
  have f5: "shape h' (cref x) = Some (centry x, cheight x) \<and> 1 \<le> cheight x
      \<and> cheight x \<le> l' \<and> snd (centry x) \<noteq> NaN" if "x \<in> set (A @ B)" for x
  proof -
    from that have x: "x \<in> set (A @ c # B)" by auto
    from d(6) [OF x] d(7) [OF x] d(9) [OF x] l'(4) that show ?thesis
      by (simp add: h'(2))
  qed
  have f7: "sorted_wrt entry_less (map centry (A @ B))"
    using srt by (auto simp: sorted_wrt_append)
  have memc: "fst (centry x) \<noteq> fst (centry c)" if "x \<in> set (A @ B)" for x
  proof
    assume e: "fst (centry x) = fst (centry c)"
    from d(12) have "fst (centry c) \<notin> (fst \<circ> centry) ` set (A @ B)"
      by auto
    moreover from that e have "fst (centry c) \<in> (fst \<circ> centry) ` set (A @ B)"
      by (metis comp_apply imageI)
    ultimately show False by simp
  qed
  have f9: "dict_get (dict_delete (dict ss) (fst (centry c))) m = Some r
      \<longleftrightarrow> (\<exists>x \<in> set (A @ B). cref x = r \<and> fst (centry x) = m)" for m r
  proof (cases "m = fst (centry c)")
    case True
    with memc show ?thesis by (auto simp: dict_get_delete [OF numc])
  next
    case False
    with d(13) [of m r] show ?thesis by (auto simp: dict_get_delete [OF numc])
  qed
  have f10: "length_ss ss - 1 = int (length (A @ B))"
    using d(14) by simp
  have f2: "?hdr \<notin> set (map cref (A @ B))" using d(2) by simp
  have f3: "distinct (map cref (A @ B))" using d(3) by simp
  have f8: "distinct (map (fst \<circ> centry) (A @ B))" using d(12) by simp
  have f12: "cref x < nextNode ss" if "x \<in> set (A @ B)" for x
    using d(16) [of x] that by auto
  have l'max: "l' \<le> maxLevel" using l'(3) d(5) by simp
  have f13: "fst (centry x) \<noteq> NaN" if "x \<in> set (A @ B)" for x
    using d(17) [of x] that by auto
  have f14: "distinct (map fst (dict_delete (dict ss) (fst (centry c))))"
    by (rule distinct_keys_delete [OF d(18)])
  have "fst (centry c) \<notin> (fst \<circ> centry) ` set (A @ B)"
    using d(12) by auto
  then have "insert (fst (centry c)) ((fst \<circ> centry) ` set (A @ B)) - {fst (centry c)}
      = (fst \<circ> centry) ` set (A @ B)"
    by (rule Diff_insert_absorb)
  moreover have "set (map (fst \<circ> centry) (A @ c # B))
      = insert (fst (centry c)) ((fst \<circ> centry) ` set (A @ B))"
    by auto
  ultimately have "set (map (fst \<circ> centry) (A @ c # B)) - {fst (centry c)}
      = set (map (fst \<circ> centry) (A @ B))"
    by (simp only: set_map)
  then have f15: "set (map fst (dict_delete (dict ss) (fst (centry c))))
      = set (map (fst \<circ> centry) (A @ B))"
    unfolding keys_delete [OF numc] d(19) .
  have "skiplist ?ss' (A @ B)"
    unfolding skiplist_def
    using f1 f2 f3 l'(2) l'max f5 chains f7 f8 f9 f10 d(15) f12 f13 f14 f15
    by (simp del: map_append set_append)
  with run h'(2) show ?thesis by simp
qed

subsection \<open>The new sorted set and the traversal\<close>

lemma skiplist_New: "skiplist (NewSortedSet zero neg_inf r) []"
proof -
  let ?ss = "NewSortedSet zero neg_inf r :: ('a, 'b) SortedSet"
  have g: "get_forward (nodes ?ss) (header ?ss) i = Some None" if "i < maxLevel" for i
    using that by (simp add: NewSortedSet_def get_forward_def newSkipListNode_def nth_opt_def)
  have "chain (nodes ?ss) i (Some (header ?ss)) [header ?ss] None" if "i < maxLevel" for i
    using g [OF that] by (simp add: chain_Cons)
  moreover have "height (nodes ?ss) (header ?ss) = maxLevel"
    by (simp add: NewSortedSet_def height_alt newSkipListNode_def)
  moreover have "level ?ss = 1" "dict ?ss = []" "length_ss ?ss = 0"
      "header ?ss < nextNode ?ss"
    by (simp_all add: NewSortedSet_def)
  ultimately show ?thesis
    by (simp add: skiplist_def lane_def maxLevel_def)
qed

lemma traverse_chain:
  assumes "chain h 0 p (map cref cs) None"
    and "\<forall>c \<in> set cs. shape h (cref c) = Some (centry c, cheight c)"
  shows "traverse h p acc = Some (acc @ map (\<lambda>c. (cref c, centry c)) cs)"
  using assms
proof (induction cs arbitrary: p acc)
  case Nil
  then show ?case by (subst traverse.simps) simp
next
  case (Cons c cs)
  from Cons.prems(1) obtain p' where p: "p = Some (cref c)"
      "get_forward h (cref c) 0 = Some p'" "chain h 0 p' (map cref cs) None"
    by (auto simp: chain_Cons)
  from Cons.prems(2) obtain n where n: "h (cref c) = Some n" "member n = fst (centry c)"
      "score n = snd (centry c)"
    using shape_node [of h "cref c" "centry c" "cheight c"] by auto
  have nx: "nth_opt (forward n) 0 = Some p'"
    using p(2) n(1) by (simp add: get_forward_def)
  have "traverse h p acc = traverse h p' (acc @ [(cref c, member n, score n)])"
    by (subst traverse.simps) (simp add: p(1) n(1) nx)
  also have "\<dots> = Some ((acc @ [(cref c, member n, score n)]) @ map (\<lambda>c. (cref c, centry c)) cs)"
    by (rule Cons.IH [OF p(3)]) (use Cons.prems(2) in simp)
  finally show ?case using n by simp
qed

lemma skiplist_lane0:
  assumes "skiplist ss cs"
  shows "lane 0 cs = cs"
proof -
  have "0 < cheight c" if "c \<in> set cs" for c
    using skiplistD(7) [OF assms that] by simp
  then show ?thesis by (simp add: lane_def filter_id_conv)
qed

lemma skiplist_walk:
  assumes sk: "skiplist ss cs"
  shows "level0_walk ss = Some (map (\<lambda>c. (cref c, centry c)) cs)"
proof -
  have "0 < maxLevel" by (simp add: maxLevel_def)
  from skiplistD(10) [OF sk this]
  obtain p where p: "get_forward (nodes ss) (header ss) 0 = Some p"
      "chain (nodes ss) 0 p (map cref cs) None"
    by (auto simp: chain_Cons skiplist_lane0 [OF sk])
  from traverse_chain [OF p(2), of "[]"] skiplistD(6) [OF sk] p(1)
  show ?thesis by (simp add: level0_walk_def)
qed

lemma skiplist_level0: "skiplist ss cs \<Longrightarrow> level0 ss = Some (map centry cs)"
  by (simp add: level0_def skiplist_walk comp_def)

lemma skiplist_level0_nodes: "skiplist ss cs \<Longrightarrow> level0_nodes ss = Some (map cref cs)"
  by (simp add: level0_nodes_def skiplist_walk comp_def)

lemma skiplist_ascending: "skiplist ss cs \<Longrightarrow> ascending (map centry cs)"
  by (simp add: ascending_def skiplistD(11))

lemma skiplist_dom:
  "skiplist ss cs \<Longrightarrow> set (map fst (dict ss)) = set (map (fst \<circ> centry) cs)"
  by (rule skiplistD(19))

subsection \<open>ZRem keeps the skip list well formed\<close>

lemma skiplist_dict_cell:
  assumes sk: "skiplist ss cs" and "dict_get (dict ss) m = Some node"
  obtains A c B where "cs = A @ c # B" "cref c = node" "fst (centry c) = m"
proof -
  from skiplistD(13) [OF sk, of m node] assms(2)
  obtain c where c: "c \<in> set cs" "cref c = node" "fst (centry c) = m" by auto
  from split_list [OF c(1)] obtain A B where "cs = A @ c # B" by blast
  then show thesis using c(2,3) by (rule that)
qed

lemma ZRem_loop_skiplist:
  assumes "skiplist ss cs"
  shows "\<exists>n ss' cs'. ZRem_loop members (removed, ss) = Some (n, ss') \<and> skiplist ss' cs'"
  using assms
proof (induction members arbitrary: removed ss cs)
  case Nil
  then show ?case by auto
next
  case (Cons m members)
  show ?case
  proof (cases "dict_get (dict ss) m")
    case None
    with Cons.IH [OF Cons.prems] show ?thesis by simp
  next
    case (Some node)
    from skiplist_dict_cell [OF Cons.prems Some]
    obtain A c B where c: "cs = A @ c # B" "cref c = node" by metis
    from deleteNode_skiplist [OF Cons.prems [unfolded c(1)]] c(2)
    obtain ss1 where ss1: "deleteNode ss node = Some ss1" "skiplist ss1 (A @ B)"
      by auto
    from Cons.IH [OF ss1(2), of "removed + 1"] ss1(1) Some show ?thesis
      by simp
  qed
qed

subsection \<open>ZAdd\<close>

lemma entry_at_shape: "entry_at h r = map_option fst (shape h r)"
  by (simp add: entry_at_def shape_def option.map_comp comp_def)

lemma entry_at_cell:
  assumes "skiplist ss cs" and "c \<in> set cs"
  shows "entry_at (nodes ss) (cref c) = Some (centry c)"
  using skiplistD(6) [OF assms] by (simp add: entry_at_shape)

lemma skiplist_dict_bound:
  assumes "skiplist ss cs" and "dict_get (dict ss) m = Some node"
  shows "node < nextNode ss"
  using skiplistD(13) [OF assms(1), of m node] skiplistD(16) [OF assms(1)] assms(2) by auto

lemma skiplist_dict_entry:
  assumes "skiplist ss cs" and "dict_get (dict ss) m = Some node"
  shows "\<exists>s. entry_at (nodes ss) node = Some (m, s) \<and> s \<noteq> NaN"
proof -
  from skiplistD(13) [OF assms(1), of m node] assms(2)
  obtain c where c: "c \<in> set cs" "cref c = node" "fst (centry c) = m" by auto
  from entry_at_cell [OF assms(1) c(1)] skiplistD(9) [OF assms(1) c(1)] c(2,3)
  show ?thesis by (cases "centry c") auto
qed

lemma zadd_result_frame:
  assumes "zadd_result ss1 ss' p"
    and "dict_get (dict ss1) (fst p) = dict_get (dict ss) (fst p)"
    and "nextNode ss \<le> nextNode ss1"
    and "\<And>node. dict_get (dict ss) (fst p) = Some node \<Longrightarrow> entry_at (nodes ss1) node = entry_at (nodes ss) node"
  shows "zadd_result ss ss' p"
  using assms by (auto simp: zadd_result_def split: option.splits if_splits)

lemma zadd_result_later:
  assumes "zadd_result ss ss1 p"
    and "dict_get (dict ss') (fst p) = dict_get (dict ss1) (fst p)"
    and "\<And>node'. dict_get (dict ss1) (fst p) = Some node' \<Longrightarrow> entry_at (nodes ss') node' = entry_at (nodes ss1) node'"
  shows "zadd_result ss ss' p"
  using assms by (auto simp: zadd_result_def split: option.splits if_splits)

lemma ZAdd_step:
  assumes sk: "skiplist ss cs" and num: "s \<noteq> NaN" and numm: "m \<noteq> NaN"
  shows "\<exists>ss1 cs1. ZAdd_loop ((m, s) # rest) (added, ss)
             = ZAdd_loop rest (added + (if dict_get (dict ss) m = None then 1 else 0), ss1)
           \<and> skiplist ss1 cs1
           \<and> nextNode ss \<le> nextNode ss1
           \<and> (\<forall>r < nextNode ss. entry_at (nodes ss1) r = entry_at (nodes ss) r)
           \<and> (\<forall>m'. m' \<noteq> m \<longrightarrow> dict_get (dict ss1) m' = dict_get (dict ss) m')
           \<and> zadd_result ss ss1 (m, s)"
proof (cases "dict_get (dict ss) m")
  case None
  from insertNode_skiplist [OF sk None num numm refl refl refl refl]
  obtain ss1 cs1 lvl where ss1: "insertNode ss s m = Some ss1" "skiplist ss1 cs1"
      "dict ss1 = dict_put (dict ss) m (nextNode ss)" "nextNode ss1 = Suc (nextNode ss)"
      "shape (nodes ss1) = (shape (nodes ss))(nextNode ss \<mapsto> ((m, s), lvl))"
    by blast
  have e: "entry_at (nodes ss1) r = (if r = nextNode ss then Some (m, s) else entry_at (nodes ss) r)" for r
    by (simp add: entry_at_shape ss1(5))
  have "ZAdd_loop ((m, s) # rest) (added, ss) = ZAdd_loop rest (added + 1, ss1)"
    by (simp add: None ss1(1))
  moreover have "zadd_result ss ss1 (m, s)"
    by (simp add: zadd_result_def ss1(3) e None dict_get_put [OF numm])
  ultimately show ?thesis
    using None ss1(2,3,4) e
    by (intro exI [of _ ss1] exI [of _ cs1]) (simp add: dict_get_put [OF numm])
next
  case (Some node)
  from skiplist_dict_entry [OF sk Some] obtain s0
    where s0: "entry_at (nodes ss) node = Some (m, s0)" "s0 \<noteq> NaN" by blast
  then obtain n where n: "nodes ss node = Some n" "score n = s0"
    by (auto simp: entry_at_def)
  show ?thesis
  proof (cases "feq s0 s")
    case True
    have "ZAdd_loop ((m, s) # rest) (added, ss) = ZAdd_loop rest (added, ss)"
      by (simp add: Some n True)
    moreover have "zadd_result ss ss (m, s)"
      using feq_eq [OF True] feq_refl [OF num] by (simp add: zadd_result_def Some s0)
    ultimately show ?thesis
      using Some sk by (intro exI [of _ ss] exI [of _ cs]) simp
  next
    case False
    from skiplist_dict_cell [OF sk Some]
    obtain A c B where c: "cs = A @ c # B" "cref c = node" "fst (centry c) = m" by metis
    from deleteNode_skiplist [OF sk [unfolded c(1)]] c(2,3)
    obtain ssd where ssd: "deleteNode ss node = Some ssd" "skiplist ssd (A @ B)"
        "dict ssd = dict_delete (dict ss) m" "nextNode ssd = nextNode ss"
        "shape (nodes ssd) = shape (nodes ss)"
      by auto
    have dn: "dict_get (dict ssd) m = None" by (simp add: ssd(3) dict_get_delete [OF numm])
    from insertNode_skiplist [OF ssd(2) dn num numm refl refl refl refl]
    obtain ss1 cs1 lvl where ss1: "insertNode ssd s m = Some ss1" "skiplist ss1 cs1"
        "dict ss1 = dict_put (dict ssd) m (nextNode ssd)" "nextNode ss1 = Suc (nextNode ssd)"
        "shape (nodes ss1) = (shape (nodes ssd))(nextNode ssd \<mapsto> ((m, s), lvl))"
      by blast
    have e: "entry_at (nodes ss1) r = (if r = nextNode ss then Some (m, s) else entry_at (nodes ss) r)" for r
      by (simp add: entry_at_shape ss1(5) ssd(4,5))
    have "ZAdd_loop ((m, s) # rest) (added, ss) = ZAdd_loop rest (added, ss1)"
      by (simp add: Some n False ssd(1) ss1(1))
    moreover have "zadd_result ss ss1 (m, s)"
      by (simp add: zadd_result_def ss1(3) ssd(3,4) e Some s0 False dict_get_put [OF numm])
    ultimately show ?thesis
      using Some ss1(2,3,4) ssd(3,4) e
      by (intro exI [of _ ss1] exI [of _ cs1])
        (simp add: dict_get_put [OF numm] dict_get_delete [OF numm])
  qed
qed

lemma ZAdd_loop_spec:
  assumes "skiplist ss cs" and "distinct (map fst ms)"
    and "\<forall>p \<in> set ms. fst p \<noteq> NaN \<and> snd p \<noteq> NaN"
  shows "\<exists>n ss' cs'. ZAdd_loop ms (added, ss) = Some (n, ss') \<and> skiplist ss' cs'
           \<and> n = added + int (length (filter (\<lambda>p. dict_get (dict ss) (fst p) = None) ms))
           \<and> nextNode ss \<le> nextNode ss'
           \<and> (\<forall>r < nextNode ss. entry_at (nodes ss') r = entry_at (nodes ss) r)
           \<and> (\<forall>m. m \<notin> fst ` set ms \<longrightarrow> dict_get (dict ss') m = dict_get (dict ss) m)
           \<and> (\<forall>p \<in> set ms. zadd_result ss ss' p)"
  using assms
proof (induction ms arbitrary: added ss cs)
  case Nil
  then show ?case by auto
next
  case (Cons p rest)
  obtain m s where p: "p = (m, s)" by (cases p)
  from Cons.prems p have dist: "distinct (map fst rest)" and mnot: "m \<notin> fst ` set rest"
    and num: "\<forall>q \<in> set rest. fst q \<noteq> NaN \<and> snd q \<noteq> NaN" and s: "s \<noteq> NaN"
    and m: "m \<noteq> NaN"
    by auto
  let ?a1 = "added + (if dict_get (dict ss) m = None then 1 else 0)"
  from ZAdd_step [OF Cons.prems(1) s m, of rest added]
  obtain ss1 cs1 where st: "ZAdd_loop ((m, s) # rest) (added, ss) = ZAdd_loop rest (?a1, ss1)"
      "skiplist ss1 cs1" "nextNode ss \<le> nextNode ss1"
      "\<forall>r < nextNode ss. entry_at (nodes ss1) r = entry_at (nodes ss) r"
      "\<forall>m'. m' \<noteq> m \<longrightarrow> dict_get (dict ss1) m' = dict_get (dict ss) m'"
      "zadd_result ss ss1 (m, s)"
    by blast
  from Cons.IH [OF st(2) dist num, of ?a1]
  obtain n ss' cs' where ih: "ZAdd_loop rest (?a1, ss1) = Some (n, ss')" "skiplist ss' cs'"
      "n = ?a1 + int (length (filter (\<lambda>p. dict_get (dict ss1) (fst p) = None) rest))"
      "nextNode ss1 \<le> nextNode ss'"
      "\<forall>r < nextNode ss1. entry_at (nodes ss') r = entry_at (nodes ss1) r"
      "\<forall>m. m \<notin> fst ` set rest \<longrightarrow> dict_get (dict ss') m = dict_get (dict ss1) m"
      "\<forall>q \<in> set rest. zadd_result ss1 ss' q"
    by blast
  have same: "dict_get (dict ss1) (fst q) = dict_get (dict ss) (fst q)" if "q \<in> set rest" for q
    using st(5) mnot that by (metis imageI)
  have run: "ZAdd_loop (p # rest) (added, ss) = Some (n, ss')"
    using st(1) ih(1) p by simp
  have "filter (\<lambda>p. dict_get (dict ss1) (fst p) = None) rest = filter (\<lambda>p. dict_get (dict ss) (fst p) = None) rest"
    by (rule filter_cong) (simp_all add: same)
  then have count: "n = added + int (length (filter (\<lambda>p. dict_get (dict ss) (fst p) = None) (p # rest)))"
    using ih(3) p by simp
  have nn: "nextNode ss \<le> nextNode ss'"
    using st(3) ih(4) by simp
  have ent: "\<forall>r < nextNode ss. entry_at (nodes ss') r = entry_at (nodes ss) r"
    using st(3,4) ih(5) by auto
  have frame: "\<forall>m'. m' \<notin> fst ` set (p # rest) \<longrightarrow> dict_get (dict ss') m' = dict_get (dict ss) m'"
    using st(5) ih(6) p by auto
  have zp: "zadd_result ss ss' p"
    unfolding p
  proof (rule zadd_result_later [OF st(6)])
    show "dict_get (dict ss') (fst (m, s)) = dict_get (dict ss1) (fst (m, s))"
      using ih(6) mnot by simp
    show "entry_at (nodes ss') node' = entry_at (nodes ss1) node'"
      if "dict_get (dict ss1) (fst (m, s)) = Some node'" for node'
      using skiplist_dict_bound [OF st(2) that] ih(5) by simp
  qed
  have zq: "zadd_result ss ss' q" if q: "q \<in> set rest" for q
  proof (rule zadd_result_frame [of ss1])
    show "zadd_result ss1 ss' q" using ih(7) q by simp
    show "dict_get (dict ss1) (fst q) = dict_get (dict ss) (fst q)" by (rule same [OF q])
    show "nextNode ss \<le> nextNode ss1" by (rule st(3))
    show "entry_at (nodes ss1) node = entry_at (nodes ss) node"
      if "dict_get (dict ss) (fst q) = Some node" for node
      using skiplist_dict_bound [OF Cons.prems(1) that] st(4) by simp
  qed
  have all: "\<forall>q \<in> set (p # rest). zadd_result ss ss' q"
    using zp zq by simp
  show ?case
    by (intro exI [of _ n] exI [of _ ss'] exI [of _ cs'] conjI run ih(2) count nn ent frame all)
qed

subsection \<open>Sequences of operations\<close>

lemma ZAdd_skiplist:
  assumes "skiplist ss cs" and "nan_free_map ms"
  shows "\<exists>n ss' cs'. ZAdd ss ms = Some (n, ss') \<and> skiplist ss' cs'"
proof -
  from assms(2) have "distinct (map fst ms)" "\<forall>p \<in> set ms. fst p \<noteq> NaN \<and> snd p \<noteq> NaN"
    by (simp_all add: nan_free_map_def list_all_iff)
  from ZAdd_loop_spec [OF assms(1) this, of 0] show ?thesis
    unfolding ZAdd_def by blast
qed

lemma ZRem_skiplist:
  assumes "skiplist ss cs"
  shows "\<exists>n ss' cs'. ZRem ss members = Some (n, ss') \<and> skiplist ss' cs'"
  unfolding ZRem_def by (rule ZRem_loop_skiplist [OF assms])

lemma apply_zop_skiplist:
  assumes "skiplist ss cs" and "valid_zop x"
  shows "\<exists>ss' cs'. apply_zop x ss = Some ss' \<and> skiplist ss' cs'"
proof (cases x)
  case (OpZAdd ms)
  with assms(2) have "nan_free_map ms" by simp
  from ZAdd_skiplist [OF assms(1) this] OpZAdd show ?thesis by auto
next
  case (OpZRem ms)
  from ZRem_skiplist [OF assms(1), of ms] OpZRem show ?thesis by auto
qed

lemma run_zops_skiplist:
  assumes "skiplist ss cs" and "list_all valid_zop ops"
  shows "\<exists>ss' cs'. run_zops ops ss = Some ss' \<and> skiplist ss' cs'"
  using assms unfolding run_zops_def
proof (induction ops arbitrary: ss cs)
  case Nil
  then show ?case by auto
next
  case (Cons x ops)
  from Cons.prems(2) have x: "valid_zop x" and rest: "list_all valid_zop ops" by simp_all
  from apply_zop_skiplist [OF Cons.prems(1) x]
  obtain ss1 cs1 where "apply_zop x ss = Some ss1" "skiplist ss1 cs1" by blast
  with Cons.IH [OF _ rest] show ?case by simp
qed

lemma reachable_skiplist:
  assumes "list_all valid_zop ops"
    and "run_zops ops (NewSortedSet zero neg_inf r) = Some ss"
  shows "\<exists>cs. skiplist ss cs"
  using run_zops_skiplist [OF skiplist_New assms(1), of zero neg_inf r] assms(2) by auto

subsection \<open>The order of level 0\<close>

text \<open>
  C5, as amended. For every sequence of \<^verbatim>\<open>ZAdd\<close> and \<^verbatim>\<open>ZRem\<close> operations on the new
  sorted set in which no member and no score added is NaN, whatever the random source,
  every operation returns and the traversal of level 0 visits the members in strictly
  ascending order of score and member.
\<close>

theorem level0_ascending:
  "list_all valid_zop ops \<Longrightarrow>
     \<exists>ss es. run_zops ops (NewSortedSet zero neg_inf r) = Some ss
            \<and> level0 ss = Some es \<and> ascending es"
proof -
  assume "list_all valid_zop ops"
  from run_zops_skiplist [OF skiplist_New this, of zero neg_inf r]
  obtain ss cs where "run_zops ops (NewSortedSet zero neg_inf r) = Some ss" "skiplist ss cs"
    by blast
  then show ?thesis
    using skiplist_level0 skiplist_ascending by blast
qed

text \<open>
  Witness for C5: three members are added (the first node gets two levels), one is
  removed and one gets a new score.
\<close>

theorem level0_ascending_witness:
  "list_all valid_zop
     [OpZAdd [(Num ''b'', Num (2::int)), (Num ''a'', Num 1), (Num ''c'', Num 2)], OpZRem [Num ''b''],
      OpZAdd [(Num ''a'', Num 5)]]
   \<and> (\<exists>ss es. run_zops
          [OpZAdd [(Num ''b'', Num (2::int)), (Num ''a'', Num 1), (Num ''c'', Num 2)], OpZRem [Num ''b''],
           OpZAdd [(Num ''a'', Num 5)]] (NewSortedSet (Num []) (Num (- 1)) (\<lambda>n. n = 0)) = Some ss
        \<and> level0 ss = Some es \<and> ascending es)
   \<and> map_option level0 (run_zops
          [OpZAdd [(Num ''b'', Num (2::int)), (Num ''a'', Num 1), (Num ''c'', Num 2)], OpZRem [Num ''b''],
           OpZAdd [(Num ''a'', Num 5)]] (NewSortedSet (Num []) (Num (- 1)) (\<lambda>n. n = 0)))
       = Some (Some [(Num ''c'', Num 2), (Num ''a'', Num 5)])"
proof -
  let ?ops = "[OpZAdd [(Num ''b'', Num (2::int)), (Num ''a'', Num 1), (Num ''c'', Num 2)], OpZRem [Num ''b''],
      OpZAdd [(Num ''a'', Num 5)]]"
  have v: "list_all valid_zop ?ops"
    by (simp add: nan_free_map_def)
  have e: "map_option level0 (run_zops ?ops (NewSortedSet (Num []) (Num (- 1)) (\<lambda>n. n = 0)))
       = Some (Some [(Num ''c'', Num 2), (Num ''a'', Num 5)])"
    by code_simp
  from level0_ascending [OF v, of "Num []" "Num (- 1)" "\<lambda>n. n = 0"] v e
  show ?thesis by blast
qed

text \<open>
  Counterexample to C5 as stated: \<^verbatim>\<open>ZAdd({"b": 1})\<close>, \<^verbatim>\<open>ZAdd({"a": NaN})\<close>,
  \<^verbatim>\<open>ZAdd({"c": 2})\<close>. No node compares below a key whose score is NaN, so \<open>a\<close> goes to
  the front; the search for \<open>(2, c)\<close> then stops at the header, since the node of \<open>a\<close>
  does not compare below it, and \<open>c\<close> with score 2 ends up before \<open>b\<close> with score 1.
\<close>

theorem level0_NaN_counterexample:
  "map_option level0
     (run_zops [OpZAdd [(Num ''b'', Num (1::int))], OpZAdd [(Num ''a'', NaN)], OpZAdd [(Num ''c'', Num 2)]]
        (NewSortedSet (Num []) (Num (- 1)) (\<lambda>n. False)))
     = Some (Some [(Num ''c'', Num 2), (Num ''a'', NaN), (Num ''b'', Num 1)])
   \<and> \<not> ascending [(Num ''c'', Num (2::int)), (Num ''a'', NaN), (Num ''b'', Num 1)]"
proof
  show "map_option level0
     (run_zops [OpZAdd [(Num ''b'', Num (1::int))], OpZAdd [(Num ''a'', NaN)], OpZAdd [(Num ''c'', Num 2)]]
        (NewSortedSet (Num []) (Num (- 1)) (\<lambda>n. False)))
     = Some (Some [(Num ''c'', Num 2), (Num ''a'', NaN), (Num ''b'', Num 1)])"
    by code_simp
  show "\<not> ascending [(Num ''c'', Num (2::int)), (Num ''a'', NaN), (Num ''b'', Num 1)]"
    by (simp add: ascending_def entry_less_def)
qed

text \<open>
  A member NaN does the same as a score NaN, in a set whose members are of a float type
  and whose scores are all 1. After \<^verbatim>\<open>ZAdd({3: 1})\<close> and \<^verbatim>\<open>ZAdd({NaN: 1})\<close> the member NaN
  is in front of 3. Then \<^verbatim>\<open>ZAdd({5: 1})\<close> puts 5 in front of both; \<^verbatim>\<open>ZRem(3)\<close> unlinks
  nothing, but takes 3 out of \<^verbatim>\<open>dict\<close> and 1 off \<^verbatim>\<open>length\<close>; and \<^verbatim>\<open>ZAdd({3: 2})\<close> leaves
  the old node of 3 on level 0 and adds a second one. Hence the theorems exclude NaN as
  a member as well.
\<close>

lemma NaN_member_examples:
  "map_option level0
     (run_zops [OpZAdd [(Num (3::int), Num (1::int))], OpZAdd [(NaN, Num 1)],
                OpZAdd [(Num 5, Num 1)]]
        (NewSortedSet (Num 0) (Num (- 1)) (\<lambda>n. False)))
     = Some (Some [(Num 5, Num 1), (NaN, Num 1), (Num 3, Num 1)])"
  "map_option (\<lambda>ss. (level0 ss, dict ss, length_ss ss))
     (run_zops [OpZAdd [(Num (3::int), Num (1::int))], OpZAdd [(NaN, Num 1)], OpZRem [Num 3]]
        (NewSortedSet (Num 0) (Num (- 1)) (\<lambda>n. False)))
     = Some (Some [(NaN, Num 1), (Num 3, Num 1)], [(NaN, 2)], 1)"
  "map_option level0_walk
     (run_zops [OpZAdd [(Num (3::int), Num (1::int))], OpZAdd [(NaN, Num 1)],
                OpZAdd [(Num 3, Num 2)]]
        (NewSortedSet (Num 0) (Num (- 1)) (\<lambda>n. False)))
     = Some (Some [(2, NaN, Num 1), (1, Num 3, Num 1), (3, Num 3, Num 2)])"
  by code_simp+

subsection \<open>The member index and the list\<close>

text \<open>
  C6, as amended. After every sequence of \<^verbatim>\<open>ZAdd\<close> and \<^verbatim>\<open>ZRem\<close> operations on the new
  sorted set in which no member and no score added is NaN, the members met by the
  traversal of level 0 are distinct and are exactly the keys of \<^verbatim>\<open>dict\<close>, each of which
  is there once, \<^verbatim>\<open>dict\<close> maps each of them to the node that holds it, and \<^verbatim>\<open>length\<close>
  equals the number of nodes on level 0 and the number of entries of \<^verbatim>\<open>dict\<close>.
\<close>

theorem index_list_agreement:
  "list_all valid_zop ops \<Longrightarrow>
     \<exists>ss w. run_zops ops (NewSortedSet zero neg_inf r) = Some ss
          \<and> level0_walk ss = Some w
          \<and> distinct (map (fst \<circ> snd) w)
          \<and> distinct (map fst (dict ss))
          \<and> set (map (fst \<circ> snd) w) = set (map fst (dict ss))
          \<and> list_all (\<lambda>(node, m, s). dict_get (dict ss) m = Some node) w
          \<and> length_ss ss = int (length w)
          \<and> length_ss ss = int (length (dict ss))"
proof -
  assume "list_all valid_zop ops"
  from run_zops_skiplist [OF skiplist_New this, of zero neg_inf r]
  obtain ss cs where run: "run_zops ops (NewSortedSet zero neg_inf r) = Some ss"
      and sk: "skiplist ss cs"
    by blast
  let ?w = "map (\<lambda>c. (cref c, centry c)) cs"
  note d = skiplistD [OF sk]
  have w: "level0_walk ss = Some ?w" by (rule skiplist_walk [OF sk])
  have mems: "map (fst \<circ> snd) ?w = map (fst \<circ> centry) cs" by simp
  have dist: "distinct (map (fst \<circ> snd) ?w)"
    unfolding mems by (rule d(12))
  have dk: "distinct (map fst (dict ss))" by (rule d(18))
  have dm: "set (map (fst \<circ> snd) ?w) = set (map fst (dict ss))"
    unfolding mems by (rule skiplist_dom [OF sk, symmetric])
  have "dict_get (dict ss) (fst (centry c)) = Some (cref c)" if "c \<in> set cs" for c
    using d(13) [of "fst (centry c)" "cref c"] that by auto
  then have la: "list_all (\<lambda>(node, m, s). dict_get (dict ss) m = Some node) ?w"
    by (simp add: list_all_iff case_prod_beta)
  have len: "length_ss ss = int (length ?w)"
    using d(14) by simp
  have "length (map fst (dict ss)) = card (set (map fst (dict ss)))"
    by (rule distinct_card [OF dk, symmetric])
  also have "\<dots> = card (set (map (fst \<circ> snd) ?w))" by (simp only: dm)
  also have "\<dots> = length (map (fst \<circ> snd) ?w)" by (rule distinct_card [OF dist])
  finally have "length (dict ss) = length ?w" by simp
  with len have cd: "length_ss ss = int (length (dict ss))" by simp
  show ?thesis
    by (intro exI [of _ ss] exI [of _ ?w] conjI run w dist dk dm la len cd)
qed

text \<open>
  Witness for C6: the operations of the witness for C5; the two members left are at the
  nodes 3 and 4.
\<close>

theorem index_list_agreement_witness:
  "list_all valid_zop
     [OpZAdd [(Num ''b'', Num (2::int)), (Num ''a'', Num 1), (Num ''c'', Num 2)], OpZRem [Num ''b''],
      OpZAdd [(Num ''a'', Num 5)]]
   \<and> (\<exists>ss w. run_zops
          [OpZAdd [(Num ''b'', Num (2::int)), (Num ''a'', Num 1), (Num ''c'', Num 2)], OpZRem [Num ''b''],
           OpZAdd [(Num ''a'', Num 5)]] (NewSortedSet (Num []) (Num (- 1)) (\<lambda>n. n = 0)) = Some ss
        \<and> level0_walk ss = Some w
        \<and> distinct (map (fst \<circ> snd) w)
        \<and> distinct (map fst (dict ss))
        \<and> set (map (fst \<circ> snd) w) = set (map fst (dict ss))
        \<and> list_all (\<lambda>(node, m, s). dict_get (dict ss) m = Some node) w
        \<and> length_ss ss = int (length w)
        \<and> length_ss ss = int (length (dict ss)))
   \<and> map_option (\<lambda>ss. (level0_walk ss, length_ss ss, dict_get (dict ss) (Num ''a''), dict_get (dict ss) (Num ''b''), dict_get (dict ss) (Num ''c'')))
       (run_zops
          [OpZAdd [(Num ''b'', Num (2::int)), (Num ''a'', Num 1), (Num ''c'', Num 2)], OpZRem [Num ''b''],
           OpZAdd [(Num ''a'', Num 5)]] (NewSortedSet (Num []) (Num (- 1)) (\<lambda>n. n = 0)))
       = Some (Some [(3, Num ''c'', Num 2), (4, Num ''a'', Num 5)], 2, Some 4, None, Some 3)"
proof -
  let ?ops = "[OpZAdd [(Num ''b'', Num (2::int)), (Num ''a'', Num 1), (Num ''c'', Num 2)], OpZRem [Num ''b''],
      OpZAdd [(Num ''a'', Num 5)]]"
  have v: "list_all valid_zop ?ops"
    by (simp add: nan_free_map_def)
  have e: "map_option (\<lambda>ss. (level0_walk ss, length_ss ss, dict_get (dict ss) (Num ''a''), dict_get (dict ss) (Num ''b''), dict_get (dict ss) (Num ''c'')))
       (run_zops ?ops (NewSortedSet (Num []) (Num (- 1)) (\<lambda>n. n = 0)))
       = Some (Some [(3, Num ''c'', Num 2), (4, Num ''a'', Num 5)], 2, Some 4, None, Some 3)"
    by code_simp
  from index_list_agreement [OF v, of "Num []" "Num (- 1)" "\<lambda>n. n = 0"] v e
  show ?thesis by blast
qed

text \<open>
  Counterexample to C6 as stated: \<^verbatim>\<open>ZAdd({"a": NaN})\<close>, \<^verbatim>\<open>ZAdd({"b": 1})\<close>,
  \<^verbatim>\<open>ZRem("a")\<close>. The node of \<open>b\<close> is put before the node of \<open>a\<close>. \<^verbatim>\<open>deleteNode\<close>
  searches for the key of \<open>a\<close>, which no node compares below, so every \<^verbatim>\<open>update[i]\<close>
  is the header, whose successor is the node of \<open>b\<close>: nothing is unlinked, yet the
  member leaves \<^verbatim>\<open>dict\<close> and \<^verbatim>\<open>length\<close> drops to 1. Level 0 still holds \<open>b\<close> and \<open>a\<close>.
\<close>

theorem index_list_NaN_counterexample:
  "map_option (\<lambda>ss. (level0 ss, dict_get (dict ss) (Num ''a''), dict_get (dict ss) (Num ''b''), length_ss ss))
     (run_zops [OpZAdd [(Num ''a'', NaN)], OpZAdd [(Num ''b'', Num (1::int))], OpZRem [Num ''a'']]
        (NewSortedSet (Num []) (Num (- 1)) (\<lambda>n. False)))
     = Some (Some [(Num ''b'', Num 1), (Num ''a'', NaN)], None, Some 2, 1)"
  by code_simp

subsection \<open>What ZAdd does for each pair\<close>

lemma skiplist_dict_on_level0:
  assumes "skiplist ss cs" and "dict_get (dict ss) m = Some node"
  shows "node \<in> set (map cref cs)"
  using skiplistD(13) [OF assms(1), of m node] assms(2) by auto

lemma skiplist_level0_dict:
  assumes sk: "skiplist ss cs" and c: "node \<in> set (map cref cs)"
    and e: "entry_at (nodes ss) node = Some e"
  shows "dict_get (dict ss) (fst e) = Some node"
proof -
  from c obtain c' where c': "c' \<in> set cs" "cref c' = node" by auto
  from entry_at_cell [OF sk c'(1)] e c'(2) have "centry c' = e" by simp
  with skiplistD(13) [OF sk, of "fst e" node] c' show ?thesis by auto
qed

text \<open>
  C7, as amended. In a sorted set reached from the new one by operations that add no
  NaN, as member or as score, \<^verbatim>\<open>ZAdd\<close> of a map without NaN returns, and the count it returns is the
  number of pairs whose member was not in \<^verbatim>\<open>dict\<close>. Afterwards every pair \<open>p\<close> of the
  map is held by the node \<open>node'\<close> that \<^verbatim>\<open>dict\<close> gives for its member, and that node is
  on level 0. When the member existed before, at \<open>node\<close> with the entry \<open>e\<close>, that node
  still holds \<open>e\<close> (it is not changed in place); when the old score compares equal to
  the new one, \<open>node'\<close> is \<open>node\<close>; when it differs, \<open>node'\<close> is another node, allocated
  by this call, and \<open>node\<close> is no longer on level 0.
\<close>

theorem ZAdd_reinserts_changed_members:
  assumes "list_all valid_zop ops"
    and "run_zops ops (NewSortedSet zero neg_inf r) = Some ss"
    and "nan_free_map ms"
  shows "\<exists>n ss' ns'. ZAdd ss ms = Some (n, ss') \<and> level0_nodes ss' = Some ns'
           \<and> n = int (length (filter (\<lambda>p. dict_get (dict ss) (fst p) = None) ms))
           \<and> (\<forall>p \<in> set ms. \<exists>node'.
                 dict_get (dict ss') (fst p) = Some node' \<and> entry_at (nodes ss') node' = Some p
                 \<and> node' \<in> set ns'
                 \<and> (\<forall>node e. dict_get (dict ss) (fst p) = Some node \<and> entry_at (nodes ss) node = Some e \<longrightarrow>
                       entry_at (nodes ss') node = Some e
                       \<and> (if feq (snd e) (snd p) then node' = node
                          else node' \<noteq> node \<and> nextNode ss \<le> node' \<and> node \<notin> set ns')))"
proof -
  from reachable_skiplist [OF assms(1,2)] obtain cs where sk: "skiplist ss cs" by blast
  from assms(3) have "distinct (map fst ms)" "\<forall>p \<in> set ms. fst p \<noteq> NaN \<and> snd p \<noteq> NaN"
    by (simp_all add: nan_free_map_def list_all_iff)
  from ZAdd_loop_spec [OF sk this, of 0]
  obtain n ss' cs' where z: "ZAdd ss ms = Some (n, ss')" "skiplist ss' cs'"
      "n = int (length (filter (\<lambda>p. dict_get (dict ss) (fst p) = None) ms))"
      "\<forall>r < nextNode ss. entry_at (nodes ss') r = entry_at (nodes ss) r"
      "\<forall>p \<in> set ms. zadd_result ss ss' p"
    unfolding ZAdd_def by auto
  let ?ns' = "map cref cs'"
  have l0: "level0_nodes ss' = Some ?ns'"
    by (rule skiplist_level0_nodes [OF z(2)])
  have each: "\<exists>node'. dict_get (dict ss') (fst p) = Some node' \<and> entry_at (nodes ss') node' = Some p
                 \<and> node' \<in> set ?ns'
                 \<and> (\<forall>node e. dict_get (dict ss) (fst p) = Some node \<and> entry_at (nodes ss) node = Some e \<longrightarrow>
                       entry_at (nodes ss') node = Some e
                       \<and> (if feq (snd e) (snd p) then node' = node
                          else node' \<noteq> node \<and> nextNode ss \<le> node' \<and> node \<notin> set ?ns'))"
    if p: "p \<in> set ms" for p
  proof -
    from z(5) p have zr: "zadd_result ss ss' p" by simp
    then obtain node' where n': "dict_get (dict ss') (fst p) = Some node'"
        "entry_at (nodes ss') node' = Some p"
      by (auto simp: zadd_result_def split: option.splits)
    have on: "node' \<in> set ?ns'"
      by (rule skiplist_dict_on_level0 [OF z(2) n'(1)])
    have old: "entry_at (nodes ss') node = Some e
                       \<and> (if feq (snd e) (snd p) then node' = node
                          else node' \<noteq> node \<and> nextNode ss \<le> node' \<and> node \<notin> set ?ns')"
      if o: "dict_get (dict ss) (fst p) = Some node" "entry_at (nodes ss) node = Some e" for node e
    proof -
      have lt: "node < nextNode ss" by (rule skiplist_dict_bound [OF sk o(1)])
      with z(4) o(2) have keep: "entry_at (nodes ss') node = Some e" by simp
      from skiplist_dict_entry [OF sk o(1)] o(2) have fe: "fst e = fst p" by auto
      show ?thesis
      proof (cases "feq (snd e) (snd p)")
        case True
        with zr n'(1) o have "node' = node"
          by (simp add: zadd_result_def)
        with keep True show ?thesis by simp
      next
        case False
        with zr n'(1) o have ge: "nextNode ss \<le> node'"
          by (simp add: zadd_result_def)
        with lt have ne: "node' \<noteq> node" by simp
        have "node \<notin> set ?ns'"
        proof
          assume "node \<in> set ?ns'"
          from skiplist_level0_dict [OF z(2) this keep] fe n'(1) ne
          show False by simp
        qed
        with keep False ge ne show ?thesis by simp
      qed
    qed
    have "\<forall>node e. dict_get (dict ss) (fst p) = Some node \<and> entry_at (nodes ss) node = Some e \<longrightarrow>
                       entry_at (nodes ss') node = Some e
                       \<and> (if feq (snd e) (snd p) then node' = node
                          else node' \<noteq> node \<and> nextNode ss \<le> node' \<and> node \<notin> set ?ns')"
      using old by blast
    with n' on show ?thesis by blast
  qed
  show ?thesis
    by (intro exI [of _ n] exI [of _ ss'] exI [of _ ?ns'] conjI z(1) l0 z(3) ballI each)
qed

text \<open>
  Witness for C7: the set of \<open>a, b, c\<close> with the scores 1, 2, 3 and the map that gives
  \<open>a\<close> the new score 5, leaves \<open>b\<close> at 2 and adds \<open>d\<close> with 4. The count is 1; \<open>b\<close> stays
  at node 2, \<open>a\<close> moves from node 1 to the new node 4, and \<open>d\<close> is at the new node 5.
\<close>

theorem ZAdd_reinserts_changed_members_witness:
  "list_all valid_zop [OpZAdd [(Num ''a'', Num (1::int)), (Num ''b'', Num 2), (Num ''c'', Num 3)]]
   \<and> nan_free_map [(Num ''a'', Num (5::int)), (Num ''b'', Num 2), (Num ''d'', Num 4)]
   \<and> (\<exists>ss. run_zops [OpZAdd [(Num ''a'', Num (1::int)), (Num ''b'', Num 2), (Num ''c'', Num 3)]]
              (NewSortedSet (Num []) (Num (- 1)) (\<lambda>n. n = 0)) = Some ss
        \<and> (\<exists>n ss' ns'.
              ZAdd ss [(Num ''a'', Num 5), (Num ''b'', Num 2), (Num ''d'', Num 4)] = Some (n, ss')
            \<and> level0_nodes ss' = Some ns'
            \<and> n = int (length (filter (\<lambda>p. dict_get (dict ss) (fst p) = None)
                                  [(Num ''a'', Num (5::int)), (Num ''b'', Num 2), (Num ''d'', Num 4)]))
            \<and> (\<forall>p \<in> set [(Num ''a'', Num 5), (Num ''b'', Num 2), (Num ''d'', Num 4)]. \<exists>node'.
                 dict_get (dict ss') (fst p) = Some node' \<and> entry_at (nodes ss') node' = Some p
                 \<and> node' \<in> set ns'
                 \<and> (\<forall>node e. dict_get (dict ss) (fst p) = Some node \<and> entry_at (nodes ss) node = Some e \<longrightarrow>
                       entry_at (nodes ss') node = Some e
                       \<and> (if feq (snd e) (snd p) then node' = node
                          else node' \<noteq> node \<and> nextNode ss \<le> node' \<and> node \<notin> set ns')))))
   \<and> do {
       ss \<leftarrow> run_zops [OpZAdd [(Num ''a'', Num (1::int)), (Num ''b'', Num 2), (Num ''c'', Num 3)]]
               (NewSortedSet (Num []) (Num (- 1)) (\<lambda>n. n = 0));
       (n, ss') \<leftarrow> ZAdd ss [(Num ''a'', Num 5), (Num ''b'', Num 2), (Num ''d'', Num 4)];
       Some (level0_walk ss, n, level0_walk ss', entry_at (nodes ss') 1)
     } = Some (Some [(1, Num ''a'', Num 1), (2, Num ''b'', Num 2), (3, Num ''c'', Num 3)], 1,
               Some [(2, Num ''b'', Num 2), (3, Num ''c'', Num 3), (5, Num ''d'', Num 4), (4, Num ''a'', Num 5)],
               Some (Num ''a'', Num 1))"
proof -
  let ?ops = "[OpZAdd [(Num ''a'', Num (1::int)), (Num ''b'', Num 2), (Num ''c'', Num 3)]]"
  let ?ms = "[(Num ''a'', Num (5::int)), (Num ''b'', Num 2), (Num ''d'', Num 4)]"
  let ?new = "NewSortedSet (Num []) (Num (- 1)) (\<lambda>n. n = 0) :: (string, int) SortedSet"
  have v: "list_all valid_zop ?ops"
    by (simp add: nan_free_map_def)
  have vm: "nan_free_map ?ms"
    by (simp add: nan_free_map_def)
  from run_zops_skiplist [OF skiplist_New v, of "Num []" "Num (- 1)" "\<lambda>n. n = 0"]
  obtain ss where run: "run_zops ?ops ?new = Some ss" by blast
  note th = ZAdd_reinserts_changed_members [OF v run vm]
  have e: "do {
       ss \<leftarrow> run_zops ?ops ?new;
       (n, ss') \<leftarrow> ZAdd ss ?ms;
       Some (level0_walk ss, n, level0_walk ss', entry_at (nodes ss') 1)
     } = Some (Some [(1, Num ''a'', Num 1), (2, Num ''b'', Num 2), (3, Num ''c'', Num 3)], 1,
               Some [(2, Num ''b'', Num 2), (3, Num ''c'', Num 3), (5, Num ''d'', Num 4), (4, Num ''a'', Num 5)],
               Some (Num ''a'', Num 1))"
    by code_simp
  show ?thesis
    by (intro conjI v vm e exI [of _ ss] run th)
qed

text \<open>
  Counterexample to C7 as stated: in the set made by \<^verbatim>\<open>ZAdd({"a": NaN})\<close> and
  \<^verbatim>\<open>ZAdd({"b": 1})\<close> the member \<open>a\<close> is at node 1, behind \<open>b\<close>. \<^verbatim>\<open>ZAdd({"a": 5})\<close>
  finds that the scores differ and calls \<^verbatim>\<open>deleteNode\<close>, which unlinks nothing, since no
  node compares below a key with the score NaN; the new node 3 is inserted and node 1
  stays on level 0, so the member \<open>a\<close> is there twice.
\<close>

theorem ZAdd_NaN_counterexample:
  "do {
     ss \<leftarrow> run_zops [OpZAdd [(Num ''a'', NaN)], OpZAdd [(Num ''b'', Num (1::int))]]
             (NewSortedSet (Num []) (Num (- 1)) (\<lambda>n. False));
     (n, ss') \<leftarrow> ZAdd ss [(Num ''a'', Num 5)];
     Some (dict_get (dict ss) (Num ''a''), n, level0_walk ss', dict_get (dict ss') (Num ''a''))
   } = Some (Some 1, 0, Some [(2, Num ''b'', Num 1), (3, Num ''a'', Num 5), (1, Num ''a'', NaN)], Some 3)"
  by code_simp

subsection \<open>ZRange\<close>

lemma ZRange_loop_chain:
  assumes "chain h 0 p (map cref cs) None"
    and "\<forall>c \<in> set cs. shape h (cref c) = Some (centry c, cheight c)"
  shows "ZRange_loop h start stop ws p i res
    = Some (res @ concat (map (\<lambda>c. render ws (centry c))
         (take (nat (stop + 1 - max i start)) (drop (nat (start - i)) cs))))"
  using assms
proof (induction cs arbitrary: p i res)
  case Nil
  then show ?case by (subst ZRange_loop.simps) simp
next
  case (Cons c cs)
  from Cons.prems(1) obtain p' where p: "p = Some (cref c)"
      "get_forward h (cref c) 0 = Some p'" "chain h 0 p' (map cref cs) None"
    by (auto simp: chain_Cons)
  from Cons.prems(2) obtain n where n: "h (cref c) = Some n" "member n = fst (centry c)"
      "score n = snd (centry c)"
    using shape_node [of h "cref c" "centry c" "cheight c"] by auto
  have nx: "nth_opt (forward n) 0 = Some p'"
    using p(2) n(1) by (simp add: get_forward_def)
  have rd: "[Member (member n)] @ (if ws then [Score (score n)] else []) = render ws (centry c)"
    by (simp add: render_def n)
  have ih: "ZRange_loop h start stop ws p' (i + 1) res'
    = Some (res' @ concat (map (\<lambda>c. render ws (centry c))
         (take (nat (stop + 1 - max (i + 1) start)) (drop (nat (start - (i + 1))) cs))))" for res'
    by (rule Cons.IH [OF p(3)]) (use Cons.prems(2) in simp)
  show ?case
  proof (cases "i \<le> stop")
    case False
    then have "nat (stop + 1 - max i start) = 0" by simp
    moreover have "ZRange_loop h start stop ws p i res = Some res"
      using False by (subst ZRange_loop.simps) (simp add: p(1))
    ultimately show ?thesis by simp
  next
    case True
    show ?thesis
    proof (cases "i \<ge> start")
      case ge: True
      have "ZRange_loop h start stop ws p i res
          = ZRange_loop h start stop ws p' (i + 1) (res @ render ws (centry c))"
        using True ge rd by (subst ZRange_loop.simps) (simp add: p(1) n(1) nx)
      also note ih
      finally have e: "ZRange_loop h start stop ws p i res
          = Some ((res @ render ws (centry c)) @ concat (map (\<lambda>c. render ws (centry c))
              (take (nat (stop + 1 - max (i + 1) start)) (drop (nat (start - (i + 1))) cs))))" .
      have a1: "nat (start - i) = 0" "nat (start - (i + 1)) = 0" using ge by simp_all
      have a2: "max i start = i" "max (i + 1) start = i + 1" using ge by simp_all
      have a3: "nat (stop + 1 - i) = Suc (nat (stop + 1 - (i + 1)))" using True by simp
      show ?thesis
        unfolding e a1 a2 a3 by simp
    next
      case lt: False
      have "ZRange_loop h start stop ws p i res
          = ZRange_loop h start stop ws p' (i + 1) res"
        using True lt by (subst ZRange_loop.simps) (simp add: p(1) n(1) nx)
      also note ih
      finally have e: "ZRange_loop h start stop ws p i res
          = Some (res @ concat (map (\<lambda>c. render ws (centry c))
              (take (nat (stop + 1 - max (i + 1) start)) (drop (nat (start - (i + 1))) cs))))" .
      have a1: "nat (start - i) = Suc (nat (start - (i + 1)))" using lt by simp
      have a2: "max i start = start" "max (i + 1) start = start" using lt by simp_all
      show ?thesis
        unfolding e a1 a2 by simp
    qed
  qed
qed

lemma filter_interval:
  assumes "0 \<le> lo" and "hi < int N"
  shows "filter (\<lambda>j. lo \<le> int j \<and> int j \<le> hi) [0..<N] = [nat lo..<nat (hi + 1)]"
proof (rule sorted_distinct_set_unique)
  show "sorted (filter (\<lambda>j. lo \<le> int j \<and> int j \<le> hi) [0..<N])"
    by (rule sorted_wrt_filter) simp
  show "distinct (filter (\<lambda>j. lo \<le> int j \<and> int j \<le> hi) [0..<N])" by simp
  show "sorted [nat lo..<nat (hi + 1)]" by simp
  show "distinct [nat lo..<nat (hi + 1)]" by simp
  show "set (filter (\<lambda>j. lo \<le> int j \<and> int j \<le> hi) [0..<N]) = set [nat lo..<nat (hi + 1)]"
    using assms by auto
qed

lemma map_nth_interval:
  assumes "k + m \<le> length xs"
  shows "map (\<lambda>j. f (xs ! j)) [k..<k + m] = map f (take m (drop k xs))"
proof (rule nth_equalityI)
  show "length (map (\<lambda>j. f (xs ! j)) [k..<k + m]) = length (map f (take m (drop k xs)))"
    using assms by simp
  show "map (\<lambda>j. f (xs ! j)) [k..<k + m] ! i = map f (take m (drop k xs)) ! i"
    if "i < length (map (\<lambda>j. f (xs ! j)) [k..<k + m])" for i
    using that assms by simp
qed

lemma ZRange_skiplist:
  assumes sk: "skiplist ss cs"
  shows "ZRange ss start stop ws = Some (spec_ZRange (map centry cs) start stop ws)"
proof -
  let ?n = "int (length cs)"
  let ?sa = "if start < 0 then ?n + start else start"
  let ?ta = "if stop < 0 then ?n + stop else stop"
  let ?sc = "if ?sa < 0 then 0 else ?sa"
  let ?tc = "if ?ta \<ge> ?n then ?n - 1 else ?ta"
  note d = skiplistD [OF sk]
  have adj: "adjustRangeIndices start stop ?n = (?sc, ?tc)"
    by (simp add: adjustRangeIndices_def Let_def)
  have bmin: "?tc = min ?ta (?n - 1)" by auto
  have sp: "spec_ZRange (map centry cs) start stop ws
      = (if ?sa > ?tc \<or> ?sa \<ge> ?n then []
         else concat (map (\<lambda>j. render ws (map centry cs ! j))
                (filter (\<lambda>j. ?sa \<le> int j \<and> int j \<le> ?tc) [0..<length cs])))"
    unfolding spec_ZRange_def Let_def length_map by (simp only: bmin)
  show ?thesis
  proof (cases "?sc > ?tc \<or> ?sc \<ge> ?n")
    case True
    then have z: "ZRange ss start stop ws = Some []"
      by (simp add: ZRange_def adj d(14) Let_def del: if_split)
    have "spec_ZRange (map centry cs) start stop ws = []"
    proof (cases "?sa > ?tc \<or> ?sa \<ge> ?n")
      case True
      show ?thesis by (subst sp, subst if_P [OF True]) (rule refl)
    next
      case False
      with True have "?tc < 0" by (auto split: if_splits)
      then have "filter (\<lambda>j. ?sa \<le> int j \<and> int j \<le> ?tc) [0..<length cs] = []"
        by (auto simp: filter_empty_conv)
      then show ?thesis
        by (subst sp, subst if_not_P [OF False]) (simp del: if_split)
    qed
    with z show ?thesis by simp
  next
    case False
    then have rng: "0 \<le> ?sc" "?sc \<le> ?tc" "?tc < ?n" by (auto split: if_splits)
    have "0 < maxLevel" by (simp add: maxLevel_def)
    from d(10) [OF this]
    obtain p where p: "get_forward (nodes ss) (header ss) 0 = Some p"
        "chain (nodes ss) 0 p (map cref cs) None"
      by (auto simp: chain_Cons skiplist_lane0 [OF sk])
    have "ZRange ss start stop ws = ZRange_loop (nodes ss) ?sc ?tc ws p 0 []"
      using False by (simp add: ZRange_def adj d(14) p(1) Let_def del: if_split)
    also have "\<dots> = Some ([] @ concat (map (\<lambda>c. render ws (centry c))
         (take (nat (?tc + 1 - max 0 ?sc)) (drop (nat (?sc - 0)) cs))))"
      by (rule ZRange_loop_chain [OF p(2)]) (use d(6) in blast)
    finally have z: "ZRange ss start stop ws = Some (concat (map (\<lambda>c. render ws (centry c))
         (take (nat (?tc + 1 - ?sc)) (drop (nat ?sc) cs))))"
      using rng(1) by (simp del: if_split)
    have na: "\<not> (?sa > ?tc \<or> ?sa \<ge> ?n)" using False by (auto split: if_splits)
    have fl: "filter (\<lambda>j. ?sa \<le> int j \<and> int j \<le> ?tc) [0..<length cs]
        = filter (\<lambda>j. ?sc \<le> int j \<and> int j \<le> ?tc) [0..<length cs]"
      by (rule filter_cong) auto
    have iv: "filter (\<lambda>j. ?sc \<le> int j \<and> int j \<le> ?tc) [0..<length cs] = [nat ?sc..<nat (?tc + 1)]"
      by (rule filter_interval [OF rng(1) rng(3)])
    have up: "nat (?tc + 1) = nat ?sc + nat (?tc + 1 - ?sc)"
      using rng by simp
    have le: "nat ?sc + nat (?tc + 1 - ?sc) \<le> length cs"
      using rng by simp
    have nth: "map (\<lambda>j. render ws (map centry cs ! j)) [nat ?sc..<nat ?sc + nat (?tc + 1 - ?sc)]
        = map (\<lambda>j. render ws (centry (cs ! j))) [nat ?sc..<nat ?sc + nat (?tc + 1 - ?sc)]"
      using le by (intro map_cong refl) simp
    have "spec_ZRange (map centry cs) start stop ws
        = concat (map (\<lambda>j. render ws (map centry cs ! j))
            (filter (\<lambda>j. ?sa \<le> int j \<and> int j \<le> ?tc) [0..<length cs]))"
      by (subst sp, subst if_not_P [OF na]) (rule refl)
    also have "\<dots> = concat (map (\<lambda>c. render ws (centry c))
         (take (nat (?tc + 1 - ?sc)) (drop (nat ?sc) cs)))"
      unfolding fl iv up nth
      by (simp only: map_nth_interval [OF le, of "\<lambda>c. render ws (centry c)"])
    finally show ?thesis using z by simp
  qed
qed


lemma ascending_unique:
  assumes "ascending xs" and "ascending ys" and "set xs = set ys"
  shows "xs = ys"
  using assms
proof (induction xs arbitrary: ys)
  case Nil
  then show ?case by simp
next
  case (Cons x xs)
  from Cons.prems(3) obtain y ys' where ys: "ys = y # ys'" by (cases ys) auto
  have lx: "\<forall>a \<in> set xs. entry_less x a" and sx: "ascending xs"
    using Cons.prems(1) by (simp_all add: ascending_def)
  have ly: "\<forall>a \<in> set ys'. entry_less y a" and sy: "ascending ys'"
    using Cons.prems(2) by (simp_all add: ascending_def ys)
  have xy: "x = y"
  proof (rule ccontr)
    assume ne: "x \<noteq> y"
    from Cons.prems(3) have "x \<in> set (y # ys')" "y \<in> set (x # xs)" by (auto simp: ys)
    with ne have "x \<in> set ys'" "y \<in> set xs" by auto
    with lx ly have "entry_less x y" "entry_less y x" by auto
    then show False using entry_less_asym by blast
  qed
  have "x \<notin> set xs" using lx entry_less_irrefl by blast
  moreover have "y \<notin> set ys'" using ly entry_less_irrefl by blast
  ultimately have "set xs = set ys'" using Cons.prems(3) xy by (auto simp: ys)
  from Cons.IH [OF sx sy this] xy show ?case by (simp add: ys)
qed

lemma ZAdd_new_entries:
  assumes dist: "distinct (map fst ms)"
    and nn: "\<forall>p \<in> set ms. fst p \<noteq> NaN \<and> snd p \<noteq> NaN"
  shows "\<exists>ss' cs'. ZAdd (NewSortedSet zero neg_inf r) ms = Some (int (length ms), ss')
           \<and> skiplist ss' cs' \<and> set (map centry cs') = set ms"
proof -
  let ?new = "NewSortedSet zero neg_inf r :: ('a, 'b) SortedSet"
  have em: "dict_get (dict ?new) m = None" for m by (simp add: NewSortedSet_def)
  from ZAdd_loop_spec [OF skiplist_New dist nn, where added = 0]
  obtain n ss' cs' where run: "ZAdd_loop ms (0, ?new) = Some (n, ss')"
    and sk: "skiplist ss' cs'"
    and n: "n = 0 + int (length (filter (\<lambda>p. dict_get (dict ?new) (fst p) = None) ms))"
    and fr: "\<forall>m. m \<notin> fst ` set ms \<longrightarrow> dict_get (dict ss') m = dict_get (dict ?new) m"
    and zr: "\<forall>p \<in> set ms. zadd_result ?new ss' p"
    by blast
  have n': "n = int (length ms)" using n by (simp add: em)
  have at: "\<exists>node'. dict_get (dict ss') (fst p) = Some node' \<and> entry_at (nodes ss') node' = Some p"
    if "p \<in> set ms" for p
  proof -
    from zr that have "zadd_result ?new ss' p" by blast
    then show ?thesis
      by (cases "dict_get (dict ss') (fst p)") (simp_all add: zadd_result_def)
  qed
  have "set (map centry cs') = set ms"
  proof (intro set_eqI iffI)
    fix e assume "e \<in> set (map centry cs')"
    then obtain c where c: "c \<in> set cs'" "centry c = e" by auto
    have dc: "dict_get (dict ss') (fst e) = Some (cref c)"
      using skiplistD(13) [OF sk, of "fst e" "cref c"] c by auto
    have "fst e \<in> fst ` set ms"
    proof (rule ccontr)
      assume "fst e \<notin> fst ` set ms"
      with fr have "dict_get (dict ss') (fst e) = None" by (simp add: em)
      with dc show False by simp
    qed
    then obtain p where p: "p \<in> set ms" "fst p = fst e" by auto
    from at [OF p(1)] p(2) dc have "entry_at (nodes ss') (cref c) = Some p" by auto
    with entry_at_cell [OF sk c(1)] c(2) have "e = p" by simp
    with p(1) show "e \<in> set ms" by simp
  next
    fix p assume p: "p \<in> set ms"
    from at [OF p] obtain node' where nd: "dict_get (dict ss') (fst p) = Some node'"
        "entry_at (nodes ss') node' = Some p" by blast
    from skiplistD(13) [OF sk, of "fst p" node'] nd(1)
    obtain c where c: "c \<in> set cs'" "cref c = node'" by auto
    with entry_at_cell [OF sk c(1)] nd(2) have "centry c = p" by simp
    with c(1) show "p \<in> set (map centry cs')" by auto
  qed
  with run sk n' show ?thesis unfolding ZAdd_def by blast
qed

lemma ZAdd_abc:
  assumes "set ms = {(Num ''a'', Num 1), (Num ''b'', Num 2), (Num ''c'', Num (3::int))}"
    and "distinct (map fst ms)"
  shows "\<exists>ss'. ZAdd (NewSortedSet zero neg_inf r) ms = Some (3, ss')
           \<and> level0 ss' = Some [(Num ''a'', Num 1), (Num ''b'', Num 2), (Num ''c'', Num 3)]
           \<and> ZRange ss' 0 (- 1) False = Some [Member (Num ''a''), Member (Num ''b''), Member (Num ''c'')]"
proof -
  let ?es = "[(Num ''a'', Num 1), (Num ''b'', Num 2), (Num ''c'', Num (3::int))]"
  have nn: "\<forall>p \<in> set ms. fst p \<noteq> NaN \<and> snd p \<noteq> NaN" using assms(1) by auto
  from ZAdd_new_entries [OF assms(2) nn]
  obtain ss' cs' where run: "ZAdd (NewSortedSet zero neg_inf r) ms = Some (int (length ms), ss')"
    and sk: "skiplist ss' cs'" and st: "set (map centry cs') = set ms"
    by blast
  have "distinct ms" using assms(2) by (simp add: distinct_map)
  then have "length ms = card (set ms)" by (simp add: distinct_card)
  also have "\<dots> = 3" by (simp add: assms(1))
  finally have len: "int (length ms) = 3" by simp
  have "ascending ?es" by (simp add: ascending_def entry_less_def flt_Num_iff)
  from ascending_unique [OF skiplist_ascending [OF sk] this] st assms(1)
  have es: "map centry cs' = ?es" by simp
  have "spec_ZRange ?es 0 (- 1) False = [Member (Num ''a''), Member (Num ''b''), Member (Num ''c'')]"
    by code_simp
  with ZRange_skiplist [OF sk, of 0 "- 1" False] es skiplist_level0 [OF sk] run len
  show ?thesis by simp
qed

text \<open>
  C9, as amended. In a sorted set reached from the new one by operations that add no
  NaN, as member or as score, the traversal of level 0 is strictly ascending and \<^verbatim>\<open>ZRange\<close> returns what the
  specification describes for the entries in that order. And for the map
  \<open>{a: 1, b: 2, c: 3}\<close>, iterated in any order \<open>ms\<close>, and any random source, \<^verbatim>\<open>ZAdd\<close> into
  the new set returns 3 and \<^verbatim>\<open>ZRange(0, -1, false)\<close> then returns \<open>a\<close>, \<open>b\<close>, \<open>c\<close>.
\<close>

theorem ZRange_positions:
  assumes "list_all valid_zop ops"
    and "run_zops ops (NewSortedSet zero neg_inf r) = Some ss"
    and "set ms = {(Num ''a'', Num 1), (Num ''b'', Num 2), (Num ''c'', Num (3::int))}"
    and "distinct (map fst ms)"
  shows "(\<exists>es. level0 ss = Some es \<and> ascending es
            \<and> ZRange ss start stop withScores = Some (spec_ZRange es start stop withScores))
       \<and> (\<exists>ss'. ZAdd (NewSortedSet zero' neg_inf' r') ms = Some (3, ss')
            \<and> ZRange ss' 0 (- 1) False = Some [Member (Num ''a''), Member (Num ''b''), Member (Num ''c'')])"
proof
  from reachable_skiplist [OF assms(1,2)] obtain cs where sk: "skiplist ss cs" by blast
  show "\<exists>es. level0 ss = Some es \<and> ascending es
          \<and> ZRange ss start stop withScores = Some (spec_ZRange es start stop withScores)"
    using skiplist_level0 [OF sk] skiplist_ascending [OF sk] ZRange_skiplist [OF sk] by blast
  show "\<exists>ss'. ZAdd (NewSortedSet zero' neg_inf' r') ms = Some (3, ss')
          \<and> ZRange ss' 0 (- 1) False = Some [Member (Num ''a''), Member (Num ''b''), Member (Num ''c'')]"
    using ZAdd_abc [OF assms(3,4), of zero' neg_inf' r'] by blast
qed

text \<open>
  Witness for C9: the set of \<open>a, b, c, d\<close> with the scores 1, 2, 3, 4, read from
  position 1 to the last but one with scores; and the map of the scenario iterated as
  \<open>c, a, b\<close>.
\<close>

theorem ZRange_positions_witness:
  "list_all valid_zop [OpZAdd [(Num ''c'', Num (3::int)), (Num ''a'', Num 1), (Num ''d'', Num 4), (Num ''b'', Num 2)]]
   \<and> set [(Num ''c'', Num (3::int)), (Num ''a'', Num 1), (Num ''b'', Num 2)]
       = {(Num ''a'', Num 1), (Num ''b'', Num 2), (Num ''c'', Num (3::int))}
   \<and> distinct (map fst [(Num ''c'', Num (3::int)), (Num ''a'', Num 1), (Num ''b'', Num 2)])
   \<and> (\<exists>ss. run_zops [OpZAdd [(Num ''c'', Num (3::int)), (Num ''a'', Num 1), (Num ''d'', Num 4), (Num ''b'', Num 2)]]
              (NewSortedSet (Num []) (Num (- 1)) (\<lambda>n. n = 0)) = Some ss
        \<and> (\<exists>es. level0 ss = Some es \<and> ascending es
              \<and> ZRange ss 1 (- 2) True = Some (spec_ZRange es 1 (- 2) True))
        \<and> (\<exists>ss'. ZAdd (NewSortedSet (Num []) (Num (- 1)) (\<lambda>n. n = 1))
                    [(Num ''c'', Num (3::int)), (Num ''a'', Num 1), (Num ''b'', Num 2)] = Some (3, ss')
              \<and> ZRange ss' 0 (- 1) False = Some [Member (Num ''a''), Member (Num ''b''), Member (Num ''c'')]))
   \<and> do {
       ss \<leftarrow> run_zops [OpZAdd [(Num ''c'', Num (3::int)), (Num ''a'', Num 1), (Num ''d'', Num 4), (Num ''b'', Num 2)]]
               (NewSortedSet (Num []) (Num (- 1)) (\<lambda>n. n = 0));
       es \<leftarrow> level0 ss;
       xs \<leftarrow> ZRange ss 1 (- 2) True;
       Some (es, xs, spec_ZRange es 1 (- 2) True)
     } = Some ([(Num ''a'', Num 1), (Num ''b'', Num 2), (Num ''c'', Num 3), (Num ''d'', Num 4)],
               [Member (Num ''b''), Score (Num 2), Member (Num ''c''), Score (Num 3)],
               [Member (Num ''b''), Score (Num 2), Member (Num ''c''), Score (Num 3)])"
proof -
  let ?ops = "[OpZAdd [(Num ''c'', Num (3::int)), (Num ''a'', Num 1), (Num ''d'', Num 4), (Num ''b'', Num 2)]]"
  let ?ms = "[(Num ''c'', Num (3::int)), (Num ''a'', Num 1), (Num ''b'', Num 2)]"
  let ?new = "NewSortedSet (Num []) (Num (- 1)) (\<lambda>n. n = 0) :: (string, int) SortedSet"
  have v: "list_all valid_zop ?ops"
    by (simp add: nan_free_map_def)
  have s: "set ?ms = {(Num ''a'', Num 1), (Num ''b'', Num 2), (Num ''c'', Num (3::int))}"
    by auto
  have d: "distinct (map fst ?ms)"
    by simp
  from run_zops_skiplist [OF skiplist_New v, of "Num []" "Num (- 1)" "\<lambda>n. n = 0"]
  obtain ss where run: "run_zops ?ops ?new = Some ss" by blast
  note th = ZRange_positions [OF v run s d, of 1 "- 2" True "Num []" "Num (- 1)" "\<lambda>n. n = 1"]
  have e: "do {
       ss \<leftarrow> run_zops ?ops ?new;
       es \<leftarrow> level0 ss;
       xs \<leftarrow> ZRange ss 1 (- 2) True;
       Some (es, xs, spec_ZRange es 1 (- 2) True)
     } = Some ([(Num ''a'', Num 1), (Num ''b'', Num 2), (Num ''c'', Num 3), (Num ''d'', Num 4)],
               [Member (Num ''b''), Score (Num 2), Member (Num ''c''), Score (Num 3)],
               [Member (Num ''b''), Score (Num 2), Member (Num ''c''), Score (Num 3)])"
    by code_simp
  show ?thesis
    by (intro conjI v s d e exI [of _ ss] run th [THEN conjunct1] th [THEN conjunct2])
qed

text \<open>
  Counterexample to C9 as stated: after \<^verbatim>\<open>ZAdd({"b": 1})\<close>, \<^verbatim>\<open>ZAdd({"a": NaN})\<close> and
  \<^verbatim>\<open>ZAdd({"c": 2})\<close> no node compares below a score NaN and NaN compares below no score,
  so \<open>a\<close> is put in front of \<open>b\<close> and \<open>c\<close> in front of \<open>a\<close>. \<^verbatim>\<open>ZRange(0, -1, true)\<close> returns
  \<open>c\<close> with score 2 before \<open>b\<close> with score 1, which is not the ascending order.
\<close>

theorem ZRange_NaN_counterexample:
  "do {
     ss \<leftarrow> run_zops [OpZAdd [(Num ''b'', Num (1::int))], OpZAdd [(Num ''a'', NaN)], OpZAdd [(Num ''c'', Num 2)]]
             (NewSortedSet (Num []) (Num (- 1)) (\<lambda>n. False));
     es \<leftarrow> level0 ss;
     xs \<leftarrow> ZRange ss 0 (- 1) True;
     Some (xs, ascending es)
   } = Some ([Member (Num ''c''), Score (Num 2), Member (Num ''a''), Score NaN, Member (Num ''b''), Score (Num 1)],
             False)"
  by code_simp
section \<open>Properties of the list\<close>

lemma linked_Cons:
  "linked h before (r # rs) after xs \<longleftrightarrow>
     (\<exists>n x xs'. h r = Some n \<and> xs = x # xs' \<and> element n = x \<and> prev n = before
        \<and> next n = (case rs of [] \<Rightarrow> after | r' # _ \<Rightarrow> Some r')
        \<and> linked h (Some r) rs after xs')"
  by (cases "h r"; cases xs) simp_all

declare linked.simps(2) [simp del]

lemma linked_length: "linked h before rs after xs \<Longrightarrow> length xs = length rs"
proof (induction rs arbitrary: before xs)
  case Nil
  then show ?case by simp
next
  case (Cons r rs)
  from Cons.prems obtain n x xs' where "xs = x # xs'" "linked h (Some r) rs after xs'"
    unfolding linked_Cons by blast
  with Cons.IH show ?case by simp
qed

lemma linked_frame:
  "(\<And>r. r \<in> set rs \<Longrightarrow> h' r = h r) \<Longrightarrow> linked h' before rs after xs = linked h before rs after xs"
proof (induction rs arbitrary: before xs)
  case Nil
  show ?case by simp
next
  case (Cons r rs)
  have "h' r = h r" by (simp add: Cons.prems)
  moreover have "linked h' (Some r) rs after ys = linked h (Some r) rs after ys" for ys
    by (rule Cons.IH) (simp add: Cons.prems)
  ultimately show ?case unfolding linked_Cons by simp
qed

lemma linked_snoc:
  "linked h before (rs @ [r]) after xs \<longleftrightarrow>
     (\<exists>n. h r = Some n \<and> xs \<noteq> [] \<and> element n = last xs \<and> next n = after
          \<and> prev n = (if rs = [] then before else Some (last rs))
          \<and> linked h before rs (Some r) (butlast xs))"
proof (induction rs arbitrary: before xs)
  case Nil
  show ?case
    unfolding append_Nil linked_Cons by (cases xs) auto
next
  case (Cons a rs)
  show ?case
  proof (cases rs)
    case Nil
    then show ?thesis
      unfolding append_Cons linked_Cons Cons.IH 
      by (cases xs) (auto simp del: linked.simps(2) simp: linked_Cons) 
  next
    case (Cons b rs')
    then show ?thesis
      unfolding append_Cons linked_Cons Cons.IH
      by (cases xs) (auto simp del: linked.simps(2) simp: linked_Cons)
  qed
qed


lemma linked_set_prev_head:
  assumes "linked h bf (r # rs) after xs" and "r \<notin> set rs"
  shows "linked (h(r := map_option (\<lambda>c. c\<lparr>prev := p\<rparr>) (h r))) p (r # rs) after xs"
proof -
  let ?h' = "h(r := map_option (\<lambda>c. c\<lparr>prev := p\<rparr>) (h r))"
  from assms(1) obtain n x xs' where n: "h r = Some n" "xs = x # xs'" "element n = x"
      "next n = (case rs of [] \<Rightarrow> after | r' # _ \<Rightarrow> Some r')" "linked h (Some r) rs after xs'"
    unfolding linked_Cons by blast
  have "linked ?h' (Some r) rs after xs' = linked h (Some r) rs after xs'"
    by (rule linked_frame) (use assms(2) in auto)
  with n show ?thesis
    unfolding linked_Cons by simp
qed

lemma linked_set_next_last:
  assumes "linked h bf rs a0 xs" and "distinct rs" and "rs \<noteq> []"
  shows "linked (h(last rs := map_option (\<lambda>c. c\<lparr>next := a\<rparr>) (h (last rs)))) bf rs a xs"
  using assms
proof (induction rs arbitrary: bf xs)
  case Nil
  then show ?case by simp
next
  case (Cons q rs)
  from Cons.prems(1) obtain n x xs' where n: "h q = Some n" "xs = x # xs'" "element n = x"
      "prev n = bf" "next n = (case rs of [] \<Rightarrow> a0 | r' # _ \<Rightarrow> Some r')"
      "linked h (Some q) rs a0 xs'"
    unfolding linked_Cons by blast
  show ?case
  proof (cases "rs = []")
    case True
    with n show ?thesis
      unfolding linked_Cons by simp
  next
    case False
    let ?h' = "h(last rs := map_option (\<lambda>c. c\<lparr>next := a\<rparr>) (h (last rs)))"
    from Cons.prems(2) have dist: "distinct rs" and "q \<notin> set rs" by simp_all
    with False have neq: "last rs \<noteq> q" by (metis last_in_set)
    have ih: "linked ?h' (Some q) rs a xs'"
      by (rule Cons.IH [OF n(6) dist False])
    have nx: "next n = (case rs of [] \<Rightarrow> a | r' # _ \<Rightarrow> Some r')"
      using n(5) False by (cases rs) simp_all
    have "?h' q = Some n" using neq n(1) by simp
    with n nx ih have "linked ?h' bf (q # rs) a xs"
      unfolding linked_Cons by blast
    then show ?thesis unfolding last_ConsR [OF False] .
  qed
qed

lemma deref_Some: "cells b r = Some n \<Longrightarrow> deref b (Some r) = Inr n"
  by (simp add: deref_def)

lemma list_cells_LPop:
  assumes "list_cells b (r # rs) xs"
  shows "\<exists>b'. LPop b = Inr ((hd xs, rs = [], None), b') \<and> list_cells b' rs (tl xs)"
proof -
  from assms have d: "distinct (r # rs)" and l: "linked (cells b) None (r # rs) None xs"
    and hd: "head b = Some r" and tl: "tail b = Some (last (r # rs))"
    and sz: "size_l b = int (length (r # rs))" and fr: "list_all (\<lambda>r. r < nextCell b) (r # rs)"
    by (simp_all add: list_cells_def)
  from l obtain n x xs' where n: "cells b r = Some n" "xs = x # xs'" "element n = x"
      "prev n = None" "next n = (case rs of [] \<Rightarrow> None | r' # _ \<Rightarrow> Some r')"
      "linked (cells b) (Some r) rs None xs'"
    unfolding linked_Cons by blast
  show ?thesis
  proof (cases rs)
    case Nil
    with n have "xs' = []" by simp
    with n Nil hd tl sz show ?thesis
      by (simp add: LPop_def delete_def deref_Some list_cells_def Let_def)
  next
    case (Cons r' rs')
    have ne: "Some r \<noteq> tail b"
      using d tl Cons by (metis distinct.simps(2) last_ConsR last_in_set list.distinct(1) option.inject)
    have "linked ((cells b)(r' := map_option (\<lambda>c. c\<lparr>prev := None\<rparr>) (cells b r'))) None (r' # rs') None xs'"
      using linked_set_prev_head [of "cells b" "Some r" r' rs' None xs' None] n(6) d Cons by simp
    with n Cons hd tl sz ne d fr show ?thesis
      by (simp add: LPop_def delete_def deref_Some list_cells_def Let_def set_prev_def)
  qed
qed

lemma list_cells_RPop:
  assumes "list_cells b (rs @ [r]) xs"
  shows "\<exists>b'. RPop b = Inr ((last xs, rs = [], None), b') \<and> list_cells b' rs (butlast xs)"
proof -
  from assms have d: "distinct (rs @ [r])" and l: "linked (cells b) None (rs @ [r]) None xs"
    and hd: "head b = (case rs @ [r] of [] \<Rightarrow> None | q # _ \<Rightarrow> Some q)" and tl: "tail b = Some r"
    and sz: "size_l b = int (length (rs @ [r]))" and fr: "list_all (\<lambda>r. r < nextCell b) (rs @ [r])"
    by (simp_all add: list_cells_def)
  from l obtain n where n: "cells b r = Some n" "xs \<noteq> []" "element n = last xs"
      "next n = None" "prev n = (if rs = [] then None else Some (last rs))"
      "linked (cells b) None rs (Some r) (butlast xs)"
    unfolding linked_snoc by blast
  show ?thesis
  proof (cases "rs = []")
    case True
    with n have "butlast xs = []" by simp
    with n True hd tl sz show ?thesis
      by (simp add: RPop_def delete_def deref_Some list_cells_def Let_def)
  next
    case False
    then obtain q rs' where rs: "rs = q # rs'" by (cases rs) auto
    have ne: "Some r \<noteq> head b"
      using d hd rs by auto
    have "linked ((cells b)(last rs := map_option (\<lambda>c. c\<lparr>next := None\<rparr>) (cells b (last rs)))) None rs None (butlast xs)"
      using linked_set_next_last [OF n(6)] d False by simp
    with n False hd tl sz ne d fr rs show ?thesis
      by (simp add: RPop_def delete_def deref_Some list_cells_def Let_def set_next_def)
  qed
qed

lemma list_cells_empty_pops:
  assumes "list_cells b [] xs"
  shows "LPop b = Inl NilDereference" and "RPop b = Inl NilDereference"
  using assms by (simp_all add: list_cells_def LPop_def RPop_def deref_def)

lemma list_cells_length: "list_cells b rs xs \<Longrightarrow> length rs = length xs"
  by (auto simp: list_cells_def dest: linked_length)


lemma walk_linked:
  "linked h bf rs None xs \<Longrightarrow>
     walk h (case rs of [] \<Rightarrow> None | r # _ \<Rightarrow> Some r) acc = Some (acc @ xs)"
proof (induction rs arbitrary: bf xs acc)
  case Nil
  then show ?case by (simp add: walk.simps)
next
  case (Cons r rs)
  from Cons.prems obtain n x xs' where n: "h r = Some n" "xs = x # xs'" "element n = x"
      "next n = (case rs of [] \<Rightarrow> None | r' # _ \<Rightarrow> Some r')" "linked h (Some r) rs None xs'"
    unfolding linked_Cons by blast
  have "walk h (Some r) acc = walk h (next n) (acc @ [element n])"
    by (subst walk.simps) (simp add: n(1))
  also have "\<dots> = Some ((acc @ [element n]) @ xs')"
    unfolding n(4) by (rule Cons.IH [OF n(5)])
  finally show ?case using n by simp
qed

lemma is_list_elements: "is_list b xs \<Longrightarrow> elements b = Some xs"
  unfolding is_list_def list_cells_def elements_def
  using walk_linked [of "cells b" None _ xs "[]"] by auto

lemma list_cells_New: "list_cells NewLists [] []"
  by (simp add: list_cells_def NewLists_def)

lemma linked_fresh:
  "r \<notin> set rs \<Longrightarrow> linked (h(r := c)) bf rs after xs = linked h bf rs after xs"
  by (rule linked_frame) auto

lemma list_cells_fresh: "list_cells b rs xs \<Longrightarrow> nextCell b \<notin> set rs"
  by (auto simp: list_cells_def list_all_iff)

lemma list_cells_prepend:
  assumes "list_cells b rs xs"
  shows "list_cells (prepend_node (snd (newNode b el)) (fst (newNode b el))) (nextCell b # rs) (el # xs)"
proof -
  let ?r = "nextCell b"
  let ?b' = "prepend_node (snd (newNode b el)) (fst (newNode b el))"
  from assms have d: "distinct rs" and l: "linked (cells b) None rs None xs"
    and hd: "head b = (case rs of [] \<Rightarrow> None | q # _ \<Rightarrow> Some q)"
    and tl: "tail b = (if rs = [] then None else Some (last rs))"
    and sz: "size_l b = int (length rs)" and fr: "list_all (\<lambda>r. r < nextCell b) rs"
    by (simp_all add: list_cells_def)
  have nin: "?r \<notin> set rs" by (rule list_cells_fresh [OF assms])
  have fr': "list_all (\<lambda>r. r < Suc (nextCell b)) rs"
    using fr by (auto simp: list_all_iff)
  have fields: "head ?b' = Some ?r" "tail ?b' = (if rs = [] then Some ?r else Some (last rs))"
      "size_l ?b' = int (length rs) + 1" "nextCell ?b' = Suc ?r"
    using hd tl sz
    by (auto simp: prepend_node_def newNode_def set_next_def set_prev_def Let_def
             split: list.splits option.splits)
  have new: "cells ?b' ?r = Some \<lparr>element = el, next = head b, prev = None\<rparr>"
    using nin hd
    by (auto simp: prepend_node_def newNode_def set_next_def set_prev_def Let_def
             split: list.splits option.splits)
  have rest: "linked (cells ?b') (Some ?r) rs None xs"
  proof (cases rs)
    case Nil
    with l show ?thesis by simp
  next
    case (Cons q rs')
    have qn: "q \<notin> set rs'" "q \<noteq> ?r" using d nin Cons by auto
    have l2: "linked ((cells b)(q := map_option (\<lambda>c. c\<lparr>prev := Some ?r\<rparr>) (cells b q)))
                (Some ?r) (q # rs') None xs"
      using linked_set_prev_head [of "cells b" None q rs' None xs "Some ?r"] l qn Cons by simp
    have "linked (cells ?b') (Some ?r) (q # rs') None xs
        = linked ((cells b)(q := map_option (\<lambda>c. c\<lparr>prev := Some ?r\<rparr>) (cells b q)))
            (Some ?r) (q # rs') None xs"
      by (rule linked_frame)
         (use nin qn hd Cons in \<open>auto simp: prepend_node_def newNode_def set_next_def
              set_prev_def Let_def\<close>)
    with l2 Cons show ?thesis by simp
  qed
  have "linked (cells ?b') None (?r # rs) None (el # xs)"
    unfolding linked_Cons using new rest hd by (auto split: list.splits)
  with fields d nin fr' show ?thesis
    by (auto simp: list_cells_def)
qed


lemma list_cells_append:
  assumes "list_cells b rs xs"
  shows "list_cells (append_node (snd (newNode b el)) (fst (newNode b el))) (rs @ [nextCell b]) (xs @ [el])"
proof -
  let ?r = "nextCell b"
  let ?b' = "append_node (snd (newNode b el)) (fst (newNode b el))"
  from assms have d: "distinct rs" and l: "linked (cells b) None rs None xs"
    and hd: "head b = (case rs of [] \<Rightarrow> None | q # _ \<Rightarrow> Some q)"
    and tl: "tail b = (if rs = [] then None else Some (last rs))"
    and sz: "size_l b = int (length rs)" and fr: "list_all (\<lambda>r. r < nextCell b) rs"
    by (simp_all add: list_cells_def)
  have nin: "?r \<notin> set rs" by (rule list_cells_fresh [OF assms])
  have fr': "list_all (\<lambda>r. r < Suc (nextCell b)) rs"
    using fr by (auto simp: list_all_iff)
  have fields: "head ?b' = (case rs of [] \<Rightarrow> Some ?r | q # _ \<Rightarrow> Some q)" "tail ?b' = Some ?r"
      "size_l ?b' = int (length rs) + 1" "nextCell ?b' = Suc ?r"
    using hd tl sz
    by (auto simp: append_node_def newNode_def set_next_def set_prev_def Let_def
             split: list.splits option.splits)
  have new: "cells ?b' ?r = Some \<lparr>element = el, next = None, prev = tail b\<rparr>"
    using nin tl
    by (auto simp: append_node_def newNode_def set_next_def set_prev_def Let_def
             split: list.splits option.splits)
  have rest: "linked (cells ?b') None rs (Some ?r) xs"
  proof (cases "rs = []")
    case True
    with l show ?thesis by simp
  next
    case False
    have ln: "last rs \<in> set rs" "last rs \<noteq> ?r"
      using False nin by (simp, metis last_in_set)
    have l2: "linked ((cells b)(last rs := map_option (\<lambda>c. c\<lparr>next := Some ?r\<rparr>) (cells b (last rs))))
                None rs (Some ?r) xs"
      by (rule linked_set_next_last [OF l d False])
    have "linked (cells ?b') None rs (Some ?r) xs
        = linked ((cells b)(last rs := map_option (\<lambda>c. c\<lparr>next := Some ?r\<rparr>) (cells b (last rs))))
            None rs (Some ?r) xs"
      by (rule linked_frame)
         (use nin ln tl False in \<open>auto simp: append_node_def newNode_def set_next_def
              set_prev_def Let_def\<close>)
    with l2 show ?thesis by simp
  qed
  have "linked (cells ?b') None (rs @ [?r]) None (xs @ [el])"
    unfolding linked_snoc using new rest tl by auto
  with fields d nin fr' show ?thesis
    by (auto simp: list_cells_def split: list.splits)
qed

lemma is_list_New: "is_list NewLists []"
  unfolding is_list_def using list_cells_New by blast

lemma is_list_LPush: "is_list b xs \<Longrightarrow> is_list (LPush b els) (xs @ els)"
proof (induction els arbitrary: b xs)
  case Nil
  then show ?case by simp
next
  case (Cons el els)
  from Cons.prems obtain rs where "list_cells b rs xs"
    unfolding is_list_def by blast
  then have "list_cells (append_node (snd (newNode b el)) (fst (newNode b el)))
      (rs @ [nextCell b]) (xs @ [el])"
    by (rule list_cells_append)
  then have "is_list (append_node (snd (newNode b el)) (fst (newNode b el))) (xs @ [el])"
    unfolding is_list_def by blast
  from Cons.IH [OF this] show ?case
    by (simp add: case_prod_beta)
qed

lemma is_list_RPush: "is_list b xs \<Longrightarrow> is_list (RPush b els) (rev els @ xs)"
proof (induction els arbitrary: b xs)
  case Nil
  then show ?case by simp
next
  case (Cons el els)
  from Cons.prems obtain rs where "list_cells b rs xs"
    unfolding is_list_def by blast
  then have "list_cells (prepend_node (snd (newNode b el)) (fst (newNode b el)))
      (nextCell b # rs) (el # xs)"
    by (rule list_cells_prepend)
  then have "is_list (prepend_node (snd (newNode b el)) (fst (newNode b el))) (el # xs)"
    unfolding is_list_def by blast
  from Cons.IH [OF this] show ?case
    by (simp add: case_prod_beta)
qed

subsection \<open>A failed push leaves an empty list in the store\<close>

lemma getOrCreateList_absent:
  assumes "store (store_e e) key = None"
  shows "getOrCreateList e key now =
    (Inr (nextObject e),
     e\<lparr>objects := (objects e)(nextObject e \<mapsto> ListObject NewLists),
       nextObject := Suc (nextObject e),
       store_e := Put (store_e e) key (nextObject e) defaultExpiry now\<rparr>)"
  using assms by (simp add: getOrCreateList_def Get_def Let_def)

lemma getList_present:
  assumes "store (store_e e) key = Some list" and "objects e list = Some (ListObject b)"
  shows "\<exists>e1. getList e key now = (Inr list, e1) \<and> objects e1 = objects e"
  using assms by (simp add: getList_def Get_def Let_def)

lemma pops_of_NewLists:
  "LPop (NewLists :: 'a List) = Inl NilDereference" "RPop (NewLists :: 'a List) = Inl NilDereference"
  by (simp_all add: LPop_def RPop_def deref_def NewLists_def)

lemma LPUSH_first_value_fails:
  assumes absent: "store (store_e e) key = None" and fails: "conv valueStr = None"
  shows "\<exists>e1. LPUSH conv e (key # valueStr # rest) now = (Inl ConversionError, e1)
           \<and> store (store_e e1) key = Some (nextObject e)
           \<and> objects e1 (nextObject e) = Some (ListObject NewLists)"
proof -
  let ?l = "nextObject e"
  let ?e1 = "e\<lparr>objects := (objects e)(?l \<mapsto> ListObject NewLists), nextObject := Suc ?l,
               store_e := Put (store_e e) key ?l defaultExpiry now\<rparr>"
  let ?e2 = "?e1\<lparr>objects := (objects ?e1)(?l \<mapsto> ListObject NewLists)\<rparr>"
  have g: "getOrCreateList e key now = (Inr ?l, ?e1)"
    by (rule getOrCreateList_absent [OF absent])
  have o: "objects ?e1 ?l = Some (ListObject NewLists)" by simp
  have lp: "LPUSH_loop conv (valueStr # rest) NewLists = (Some ConversionError, NewLists)"
    by (simp add: fails)
  have run: "LPUSH conv e (key # valueStr # rest) now = (Inl ConversionError, ?e2)"
    unfolding LPUSH_def by (simp only: g o lp list.sel list.size split option.case object.case
        Let_def) (simp add: fails)
  have st: "store (store_e ?e2) key = Some ?l"
    by (simp add: Put_def Let_def UpdateLastAccessedAt_def)
  have ob: "objects ?e2 ?l = Some (ListObject NewLists)" by simp
  from run st ob show ?thesis by blast
qed

lemma RPUSH_first_value_fails:
  assumes absent: "store (store_e e) key = None" and fails: "conv valueStr = None"
  shows "\<exists>e1. RPUSH conv e (key # valueStr # rest) now = (Inl ConversionError, e1)
           \<and> store (store_e e1) key = Some (nextObject e)
           \<and> objects e1 (nextObject e) = Some (ListObject NewLists)"
proof -
  let ?l = "nextObject e"
  let ?e1 = "e\<lparr>objects := (objects e)(?l \<mapsto> ListObject NewLists), nextObject := Suc ?l,
               store_e := Put (store_e e) key ?l defaultExpiry now\<rparr>"
  let ?e2 = "?e1\<lparr>objects := (objects ?e1)(?l \<mapsto> ListObject NewLists)\<rparr>"
  have g: "getOrCreateList e key now = (Inr ?l, ?e1)"
    by (rule getOrCreateList_absent [OF absent])
  have o: "objects ?e1 ?l = Some (ListObject NewLists)" by simp
  have lp: "RPUSH_loop conv (valueStr # rest) NewLists = (Some ConversionError, NewLists)"
    by (simp add: fails)
  have run: "RPUSH conv e (key # valueStr # rest) now = (Inl ConversionError, ?e2)"
    unfolding RPUSH_def by (simp only: g o lp list.sel list.size split option.case object.case
        Let_def) (simp add: fails)
  have st: "store (store_e ?e2) key = Some ?l"
    by (simp add: Put_def Let_def UpdateLastAccessedAt_def)
  have ob: "objects ?e2 ?l = Some (ListObject NewLists)" by simp
  from run st ob show ?thesis by blast
qed

lemma pops_of_empty_list_in_store:
  assumes "store (store_e e) key = Some list" and "objects e list = Some (ListObject NewLists)"
  shows "LPOP e [key] now = Inl NilDereference" "RPOP e [key] now = Inl NilDereference"
proof -
  from getList_present [OF assms, of now]
  obtain e1 where e1: "getList e key now = (Inr list, e1)" "objects e1 = objects e" by blast
  show "LPOP e [key] now = Inl NilDereference"
    by (simp add: LPOP_def e1 assms(2) pops_of_NewLists)
  show "RPOP e [key] now = Inl NilDereference"
    by (simp add: RPOP_def e1 assms(2) pops_of_NewLists)
qed

text \<open>
  C10. On a list that is not empty \<^verbatim>\<open>LPop\<close> returns the element at the head and \<^verbatim>\<open>RPop\<close>
  the element at the tail, each removes it, the flag tells whether the list has become
  empty and the error is \<^verbatim>\<open>nil\<close>; on the empty list both dereference a nil pointer.
  Here \<open>is_list b xs\<close> says that \<open>b\<close> is a well-formed list whose elements from head to
  tail are \<open>xs\<close>: the new list is one, and \<^verbatim>\<open>LPush\<close>, \<^verbatim>\<open>RPush\<close> and the two pops keep
  lists well formed. The failure is reached through the commands: when the key is not
  in the store and the first value of an \<^verbatim>\<open>LPUSH\<close> or \<^verbatim>\<open>RPUSH\<close> does not convert to the
  element type, the command returns the error of the conversion and leaves in the store,
  under the key, the empty list that \<^verbatim>\<open>getOrCreateList\<close> has made; \<^verbatim>\<open>LPOP\<close> and \<^verbatim>\<open>RPOP\<close>
  of that key then dereference a nil pointer.
\<close>

theorem LPop_RPop_on_lists:
  assumes "is_list b xs"
    and "store (store_e e) key = None"
    and "conv valueStr = None"
  shows "(xs \<noteq> [] \<longrightarrow>
        (\<exists>b'. LPop b = Inr ((hd xs, tl xs = [], None), b') \<and> is_list b' (tl xs)
              \<and> elements b' = Some (tl xs))
      \<and> (\<exists>b'. RPop b = Inr ((last xs, butlast xs = [], None), b') \<and> is_list b' (butlast xs)
              \<and> elements b' = Some (butlast xs)))
     \<and> (xs = [] \<longrightarrow> LPop b = Inl NilDereference \<and> RPop b = Inl NilDereference)
     \<and> (\<exists>e1 list. LPUSH conv e (key # valueStr # rest) now = (Inl ConversionError, e1)
            \<and> store (store_e e1) key = Some list
            \<and> objects e1 list = Some (ListObject NewLists)
            \<and> LPOP e1 [key] now' = Inl NilDereference
            \<and> RPOP e1 [key] now' = Inl NilDereference)
     \<and> (\<exists>e1 list. RPUSH conv e (key # valueStr # rest) now = (Inl ConversionError, e1)
            \<and> store (store_e e1) key = Some list
            \<and> objects e1 list = Some (ListObject NewLists)
            \<and> LPOP e1 [key] now' = Inl NilDereference
            \<and> RPOP e1 [key] now' = Inl NilDereference)"
proof (intro conjI)
  from assms(1) obtain rs where rs: "list_cells b rs xs"
    unfolding is_list_def by blast
  then have len: "length rs = length xs" by (rule list_cells_length)
  show "xs = [] \<longrightarrow> LPop b = Inl NilDereference \<and> RPop b = Inl NilDereference"
  proof
    assume "xs = []"
    with len rs have "list_cells b [] xs" by simp
    from list_cells_empty_pops [OF this]
    show "LPop b = Inl NilDereference \<and> RPop b = Inl NilDereference" by simp
  qed
  show "xs \<noteq> [] \<longrightarrow>
        (\<exists>b'. LPop b = Inr ((hd xs, tl xs = [], None), b') \<and> is_list b' (tl xs)
              \<and> elements b' = Some (tl xs))
      \<and> (\<exists>b'. RPop b = Inr ((last xs, butlast xs = [], None), b') \<and> is_list b' (butlast xs)
              \<and> elements b' = Some (butlast xs))"
  proof
    assume False: "xs \<noteq> []"
    with len obtain r rs' where front: "rs = r # rs'" by (cases rs) auto
    from False len obtain rs'' r' where rear: "rs = rs'' @ [r']"
      by (cases rs rule: rev_cases) auto
    from list_cells_LPop [OF rs [unfolded front]] obtain b1
      where b1: "LPop b = Inr ((hd xs, rs' = [], None), b1)" "list_cells b1 rs' (tl xs)"
      by blast
    from list_cells_RPop [OF rs [unfolded rear]] obtain b2
      where b2: "RPop b = Inr ((last xs, rs'' = [], None), b2)" "list_cells b2 rs'' (butlast xs)"
      by blast
    have e1: "(rs' = []) = (tl xs = [])"
      using list_cells_length [OF b1(2)] by (metis length_0_conv)
    have e2: "(rs'' = []) = (butlast xs = [])"
      using list_cells_length [OF b2(2)] by (metis length_0_conv)
    have "is_list b1 (tl xs)" "is_list b2 (butlast xs)"
      unfolding is_list_def using b1(2) b2(2) by blast+
    with b1(1) b2(1) e1 e2
    show "(\<exists>b'. LPop b = Inr ((hd xs, tl xs = [], None), b') \<and> is_list b' (tl xs)
              \<and> elements b' = Some (tl xs))
      \<and> (\<exists>b'. RPop b = Inr ((last xs, butlast xs = [], None), b') \<and> is_list b' (butlast xs)
              \<and> elements b' = Some (butlast xs))"
      by (simp add: is_list_elements)
  qed
  from LPUSH_first_value_fails [of e key conv valueStr rest now, OF assms(2,3)]
  obtain e1 where e1: "LPUSH conv e (key # valueStr # rest) now = (Inl ConversionError, e1)"
      "store (store_e e1) key = Some (nextObject e)"
      "objects e1 (nextObject e) = Some (ListObject NewLists)"
    by blast
  from e1 pops_of_empty_list_in_store [OF e1(2,3), of now']
  show "\<exists>e1 list. LPUSH conv e (key # valueStr # rest) now = (Inl ConversionError, e1)
           \<and> store (store_e e1) key = Some list
           \<and> objects e1 list = Some (ListObject NewLists)
           \<and> LPOP e1 [key] now' = Inl NilDereference
           \<and> RPOP e1 [key] now' = Inl NilDereference"
    by blast
  from RPUSH_first_value_fails [of e key conv valueStr rest now, OF assms(2,3)]
  obtain e2 where e2: "RPUSH conv e (key # valueStr # rest) now = (Inl ConversionError, e2)"
      "store (store_e e2) key = Some (nextObject e)"
      "objects e2 (nextObject e) = Some (ListObject NewLists)"
    by blast
  from e2 pops_of_empty_list_in_store [OF e2(2,3), of now']
  show "\<exists>e1 list. RPUSH conv e (key # valueStr # rest) now = (Inl ConversionError, e1)
           \<and> store (store_e e1) key = Some list
           \<and> objects e1 list = Some (ListObject NewLists)
           \<and> LPOP e1 [key] now' = Inl NilDereference
           \<and> RPOP e1 [key] now' = Inl NilDereference"
    by blast
qed

text \<open>
  Witness for C10: the list of 1, 2, 3 pushed onto the new list, the list of the single
  element 7, and the new list itself; and, for lists of \<^verbatim>\<open>int\<close> in the new store, the
  command \<^verbatim>\<open>LPUSH mylist abc 5\<close> (and the same with \<^verbatim>\<open>RPUSH\<close>), whose first value is no
  number, followed by \<^verbatim>\<open>LPOP mylist\<close> and \<^verbatim>\<open>RPOP mylist\<close>.
\<close>

theorem LPop_RPop_on_lists_witness:
  "is_list (LPush NewLists [1::int, 2, 3]) [1, 2, 3]
   \<and> store (store_e (NewEval NewStore :: int Eval)) ''mylist'' = None
   \<and> convertArgToType_int ''abc'' = None
   \<and> (\<exists>b'. LPop (LPush NewLists [1::int, 2, 3]) = Inr ((1, False, None), b')
           \<and> elements b' = Some [2, 3])
   \<and> (\<exists>b'. RPop (LPush NewLists [1::int, 2, 3]) = Inr ((3, False, None), b')
           \<and> elements b' = Some [1, 2])
   \<and> (\<exists>b'. LPop (LPush NewLists [7::int]) = Inr ((7, True, None), b') \<and> elements b' = Some [])
   \<and> is_list (NewLists :: int List) []
   \<and> LPop (NewLists :: int List) = Inl NilDereference
   \<and> RPop (NewLists :: int List) = Inl NilDereference
   \<and> (\<exists>e1 list. LPUSH convertArgToType_int (NewEval NewStore) [''mylist'', ''abc'', ''5''] 100
              = (Inl ConversionError, e1)
            \<and> store (store_e e1) ''mylist'' = Some list
            \<and> objects e1 list = Some (ListObject NewLists)
            \<and> LPOP e1 [''mylist''] 200 = Inl NilDereference
            \<and> RPOP e1 [''mylist''] 200 = Inl NilDereference)
   \<and> (\<exists>e1 list. RPUSH convertArgToType_int (NewEval NewStore) [''mylist'', ''abc'', ''5''] 100
              = (Inl ConversionError, e1)
            \<and> store (store_e e1) ''mylist'' = Some list
            \<and> objects e1 list = Some (ListObject NewLists)
            \<and> LPOP e1 [''mylist''] 200 = Inl NilDereference
            \<and> RPOP e1 [''mylist''] 200 = Inl NilDereference)"
proof -
  have l3: "is_list (LPush NewLists [1::int, 2, 3]) [1, 2, 3]"
    using is_list_LPush [OF is_list_New, of "[1::int, 2, 3]"] by simp
  have l1: "is_list (LPush NewLists [7::int]) [7]"
    using is_list_LPush [OF is_list_New, of "[7::int]"] by simp
  have l0: "is_list (NewLists :: int List) []"
    by (rule is_list_New)
  have ab: "store (store_e (NewEval NewStore :: int Eval)) ''mylist'' = None"
    by (simp add: NewEval_def NewStore_def)
  have cf: "convertArgToType_int ''abc'' = None"
    by (simp add: convertArgToType_int_def Atoi_def is_digit_def less_eq_char_def)
  note t3 = LPop_RPop_on_lists [where conv = convertArgToType_int and valueStr = "''abc''"
      and rest = "[''5'']" and now = 100 and now' = 200, OF l3 ab cf]
  note t1 = LPop_RPop_on_lists [where conv = convertArgToType_int and valueStr = "''abc''"
      and rest = "[''5'']" and now = 100 and now' = 200, OF l1 ab cf]
  note t0 = LPop_RPop_on_lists [where conv = convertArgToType_int and valueStr = "''abc''"
      and rest = "[''5'']" and now = 100 and now' = 200, OF l0 ab cf]
  have p3: "(\<exists>b'. LPop (LPush NewLists [1::int, 2, 3]) = Inr ((1, False, None), b')
           \<and> elements b' = Some [2, 3])
     \<and> (\<exists>b'. RPop (LPush NewLists [1::int, 2, 3]) = Inr ((3, False, None), b')
           \<and> elements b' = Some [1, 2])"
    using t3 [THEN conjunct1] by simp blast
  have p1: "\<exists>b'. LPop (LPush NewLists [7::int]) = Inr ((7, True, None), b') \<and> elements b' = Some []"
    using t1 [THEN conjunct1] by simp blast
  have p0: "LPop (NewLists :: int List) = Inl NilDereference"
      "RPop (NewLists :: int List) = Inl NilDereference"
    using t0 [THEN conjunct2, THEN conjunct1] by simp_all
  show ?thesis
    by (intro conjI l3 ab cf p3 [THEN conjunct1] p3 [THEN conjunct2] p1 l0 p0
        t0 [THEN conjunct2, THEN conjunct2, THEN conjunct1]
        t0 [THEN conjunct2, THEN conjunct2, THEN conjunct2])
qed

end
